theory Spec2Isabelle
  imports Main "HOL-Library.Sublist" "HOL-Library.AList" "HOL-Library.List_Lexorder"
    "HOL-Library.Char_ord"
begin

section \<open>Texture storage annotation (annotate\_texture\_storage.cc)\<close>

text \<open>
  A shallow embedding of the \<^verbatim>\<open>StorageInfo\<close> analysis of
  \<^verbatim>\<open>src/relay/transforms/annotate_texture_storage.cc\<close> and of the entry points
  \<^verbatim>\<open>CollectStorageInfo\<close> and \<^verbatim>\<open>AnnotateMemoryScopeExpr\<close>.
  Every mutation of the visitor's members is explicit state passing; every
  \<^verbatim>\<open>ICHECK\<close>, null dereference and out-of-range read of the source is a
  value of \<open>error\<close>.
\<close>

subsection \<open>Errors\<close>

text \<open>
  \<open>ICHECK msg\<close> is a failed \<^verbatim>\<open>ICHECK\<close> (an InternalError carrying the
  message). \<open>NullDeref\<close> stands for \<^verbatim>\<open>p->field\<close> on a null pointer, as in
  \<^verbatim>\<open>shape[4].as<IntImmNode>()->value\<close> when the dimension is not an
  \<^verbatim>\<open>IntImm\<close>: undefined behaviour in C++ (a crash in practice), with no message.
  \<open>OutOfRange\<close> stands for \<^verbatim>\<open>v[0]\<close> on an empty \<^verbatim>\<open>std::vector\<close>.
\<close>

datatype error = ICHECK string | NullDeref | OutOfRange

subsection \<open>Strings\<close>

text \<open>
  \<^verbatim>\<open>s.find(t)\<close> of \<^verbatim>\<open>std::string\<close>: the index of the first occurrence of
  \<open>t\<close> in \<open>s\<close>; \<open>None\<close> is \<^verbatim>\<open>npos\<close>.
\<close>

fun str_find :: "string \<Rightarrow> string \<Rightarrow> nat option" where
  "str_find [] t = (if t = [] then Some 0 else None)"
| "str_find (c # s) t =
     (if prefix t (c # s) then Some 0 else map_option Suc (str_find s t))"

subsection \<open>Shapes, types and placement descriptors\<close>

text \<open>
  A dimension is a \<^verbatim>\<open>PrimExpr\<close>: either an \<^verbatim>\<open>IntImm\<close> with its (64-bit) value,
  or any other expression (a symbolic dimension), for which
  \<^verbatim>\<open>as<IntImmNode>()\<close> is null.
\<close>

datatype dim = IntImm int | NonImm string

datatype rtype = TensorType "dim list" | TupleType "rtype list" | OtherType

text \<open>
  Modelled from the spec: the declarations of \<^verbatim>\<open>Target\<close> and \<^verbatim>\<open>VirtualDevice\<close>
  are not part of the sources at hand. The placement descriptor is
  (device kind, device index, target descriptor, storage scope); of the target only the
  kind name and the attributes \<^verbatim>\<open>device\<close> and \<^verbatim>\<open>texture_spatial_limit\<close> are
  read. \<^verbatim>\<open>vd != VirtualDevice::FullyUnconstrained()\<close> compares object identity
  with the one unconstrained descriptor, which therefore is a constructor of its own.
\<close>

record target =
  kind_name :: string
  device_attr :: "string option"
  texture_spatial_limit :: "int option"

datatype virtual_device =
    FullyUnconstrained
  | VirtualDevice (device_type: int) (virtual_device_id: int)
      (vd_target: "target option") (memory_scope: string)

subsection \<open>The scope-fit evaluator: \<^verbatim>\<open>StorageInfo::Scope\<close>\<close>

text \<open>
  The source computes in \<^verbatim>\<open>int\<close> (32 bits, two's complement) from the 64-bit
  values of the dimensions: \<open>int32\<close> is the narrowing conversion, and every product and
  difference wraps around. (Signed overflow is undefined in C++; the model takes the
  wrap-around, and the theorems below about sizes are stated where nothing overflows.)
\<close>

definition int32 :: "int \<Rightarrow> int" where
  "int32 x = (x + 2 ^ 31) mod 2 ^ 32 - 2 ^ 31"

definition mul32 :: "int \<Rightarrow> int \<Rightarrow> int" where
  "mul32 a b = int32 (a * b)"

definition sub32 :: "int \<Rightarrow> int \<Rightarrow> int" where
  "sub32 a b = int32 (a - b)"

text \<open>\<^verbatim>\<open>shape[i].as<IntImmNode>()->value\<close>\<close>

fun imm_value :: "dim \<Rightarrow> error + int" where
  "imm_value (IntImm v) = Inr v"
| "imm_value (NonImm _) = Inl NullDeref"

text \<open>
  \<^verbatim>\<open>std::map<int, std::string> diffs\<close>: \<open>diffs_assign\<close> is
  \<^verbatim>\<open>diffs[k] = v\<close> (a repeated key keeps the last value), \<open>diffs_begin\<close> is
  \<^verbatim>\<open>*diffs.begin()\<close>, the entry of the least key.
\<close>

definition diffs_assign :: "int \<Rightarrow> string \<Rightarrow> (int \<times> string) list \<Rightarrow> (int \<times> string) list" where
  "diffs_assign k v m = AList.update k v m"

fun diffs_begin :: "(int \<times> string) list \<Rightarrow> (int \<times> string) option" where
  "diffs_begin [] = None"
| "diffs_begin (e # es) =
     (case diffs_begin es of
        None \<Rightarrow> Some e
      | Some b \<Rightarrow> if fst b < fst e then Some b else Some e)"

text \<open>
  \<^verbatim>\<open>vd->target->GetAttr<Integer>("texture_spatial_limit").value_or(Integer(16384))->value\<close>,
  narrowed to \<^verbatim>\<open>int\<close>.
\<close>

fun spatial_limit :: "virtual_device \<Rightarrow> error + int" where
  "spatial_limit FullyUnconstrained = Inl NullDeref"
| "spatial_limit (VirtualDevice dt i None ms) = Inl NullDeref"
| "spatial_limit (VirtualDevice dt i (Some t) ms) =
     Inr (int32 (case texture_spatial_limit t of None \<Rightarrow> 16384 | Some l \<Rightarrow> l))"

text \<open>The body of the \<^verbatim>\<open>if\<close>, once the four leading dimensions and the limit are read.\<close>

definition fit :: "int \<Rightarrow> int \<Rightarrow> int \<Rightarrow> int \<Rightarrow> int \<Rightarrow> string" where
  "fit limit a0 a1 a2 a3 =
     (let d3l = mul32 (mul32 a0 a1) a2;
          d3r = a3;
          diff3 = (if d3l > d3r then sub32 d3l d3r else sub32 d3r d3l);
          diffs3 = (if d3l < limit \<and> d3r < limit then diffs_assign diff3 '''' [] else []);
          d2l = mul32 a0 a1;
          d2r = mul32 a2 a3;
          diff2 = (if d2l > d2r then sub32 d2l d2r else sub32 d2r d2l);
          diffs2 = (if d2l < limit \<and> d2r < limit then diffs_assign diff2 ''nhwc'' diffs3 else diffs3);
          d1l = a0;
          d1r = mul32 (mul32 a1 a2) a3;
          diff1 = (if d1l > d1r then sub32 d1l d1r else sub32 d1r d1l);
          diffs1 = (if d1l < limit \<and> d1r < limit then diffs_assign diff1 ''weight'' diffs2 else diffs2)
      in case diffs_begin diffs1 of
           None \<Rightarrow> ''global''
         | Some (d, label) \<Rightarrow>
             if label \<noteq> '''' then ''global.texture'' @ (''-'' @ label) else ''global.texture'')"

definition Scope :: "dim list \<Rightarrow> virtual_device \<Rightarrow> error + string" where
  "Scope shape vd =
     (if vd \<noteq> FullyUnconstrained \<and> length shape = 5 then
        (case imm_value (shape ! 4) of
           Inl e \<Rightarrow> Inl e
         | Inr last_dim \<Rightarrow>
             if last_dim = 4 then
               (case spatial_limit vd of
                  Inl e \<Rightarrow> Inl e
                | Inr limit \<Rightarrow>
               (case imm_value (shape ! 0) of Inl e \<Rightarrow> Inl e | Inr v0 \<Rightarrow>
               (case imm_value (shape ! 1) of Inl e \<Rightarrow> Inl e | Inr v1 \<Rightarrow>
               (case imm_value (shape ! 2) of Inl e \<Rightarrow> Inl e | Inr v2 \<Rightarrow>
               (case imm_value (shape ! 3) of Inl e \<Rightarrow> Inl e | Inr v3 \<Rightarrow>
                  Inr (fit limit (int32 v0) (int32 v1) (int32 v2) (int32 v3)))))))
             else Inr ''global'')
      else Inr ''global'')"

subsection \<open>Demand unification\<close>

text \<open>\<^verbatim>\<open>StorageInfo::GetConsumerScope\<close>\<close>

definition texture_tag :: string where
  "texture_tag = ''global.texture''"

fun consumer_loop :: "string list \<Rightarrow> string" where
  "consumer_loop [] = texture_tag"
| "consumer_loop (c # cs) =
     (if str_find c texture_tag = None then ''global'' else consumer_loop cs)"

definition GetConsumerScope :: "string list \<Rightarrow> string" where
  "GetConsumerScope consumer_scopes =
     (if length consumer_scopes = 0 then ''global'' else consumer_loop consumer_scopes)"

text \<open>\<^verbatim>\<open>StorageInfo::CanConsumeTextures\<close>\<close>

fun CanConsumeTextures :: "string list \<Rightarrow> bool" where
  "CanConsumeTextures [] = False"
| "CanConsumeTextures (c # cs) =
     (if str_find c texture_tag = Some 0 then True else CanConsumeTextures cs)"

subsection \<open>Expressions\<close>

text \<open>
  Modelled from the spec: the attribute classes of \<^verbatim>\<open>tvm/relay/attrs/nn.h\<close> and the
  expression classes of \<^verbatim>\<open>tvm/relay/expr.h\<close> are not part of the sources at hand.
  Of the attributes only the layout strings are read. An expression is a Reference
  (\<open>Var\<close>), a Literal (\<open>Constant\<close>), a bare operator (\<open>Op\<close>), a \<open>Call\<close> (operator,
  arguments, attributes, result type) or a Subgraph (\<open>Function\<close>: parameters, body, and
  whether it carries the \<^verbatim>\<open>Primitive\<close> attribute). Identity is by node address:
  \<open>addr\<close> is the address of the node, the key of every table; a shared subexpression
  is the same node, with the same address, at each of its occurrences. \<open>vdev\<close> is the
  resolved placement descriptor of the node, what \<^verbatim>\<open>GetVirtualDevice\<close> of the base
  class returns for it, and \<open>checked_type\<close> its inferred type.
\<close>

datatype attrs =
    NoAttrs
  | Conv2DAttrs (data_layout: string) (kernel_layout: string)
  | Conv2DWinogradAttrs (data_layout: string) (kernel_layout: string)
  | GlobalPool2DAttrs (layout: string)
  | MaxPool2DAttrs (layout: string)
  | AvgPool2DAttrs (layout: string)
  | OtherAttrs string

datatype expr =
    Var (addr: nat) (checked_type: rtype) (vdev: virtual_device)
  | Constant (addr: nat) (checked_type: rtype) (vdev: virtual_device)
  | Op (addr: nat) (op_name: string)
  | Call (addr: nat) (op: expr) (args: "expr list") (call_attrs: attrs)
      (checked_type: rtype) (vdev: virtual_device)
  | Function (addr: nat) (params: "expr list") (body: expr) (primitive: bool)

subsection \<open>The capability matcher: \<^verbatim>\<open>StorageInfo::SupportsTextureStorage\<close>\<close>

fun SupportsTextureStorage :: "attrs \<Rightarrow> bool" where
  "SupportsTextureStorage (Conv2DAttrs dl kl) =
     (if dl = ''NCHW4c'' \<and> kl = ''OIHW4o'' then True
      else if dl = ''NHWC4c'' \<and> (kl = ''HWOI4o'' \<or> kl = ''HWIO4o'' \<or> kl = ''OIHW4o'') then True
      else False)"
| "SupportsTextureStorage (Conv2DWinogradAttrs dl kl) =
     (if (dl = ''NCHW4c'' \<or> dl = ''NHWC4c'') \<and> (kl = ''OIHW4o'' \<or> kl = ''HWIO4o'') then True
      else False)"
| "SupportsTextureStorage (GlobalPool2DAttrs l) = (if l = ''NCHW4c'' then True else False)"
| "SupportsTextureStorage (MaxPool2DAttrs l) = (if l = ''NCHW4c'' then True else False)"
| "SupportsTextureStorage (AvgPool2DAttrs l) = (if l = ''NCHW4c'' then True else False)"
| "SupportsTextureStorage NoAttrs = False"
| "SupportsTextureStorage (OtherAttrs n) = False"

subsection \<open>The state of the analysis\<close>

text \<open>
  The tables of \<^verbatim>\<open>StorageInfo\<close> are association lists keyed by node address, in
  the order of insertion. The iteration order of \<^verbatim>\<open>std::unordered_map\<close> is
  unspecified. The two iterations over the consumer-demand table (legalization, and lines
  72 to 80 of \<^verbatim>\<open>GetStorageMap\<close>) read and write, for an entry, the scope of the key of
  that entry alone; they run in the order of the list. The iteration over the
  argument-to-parameter table (lines 84 to 90) reads scopes that it writes, so that its
  result depends on the order: there the order is a parameter of the model, see
  \<open>iteration\<close> below.
\<close>

type_synonym 'v table = "(nat \<times> 'v list) list"

text \<open>
  Modelled from the spec: \<open>visit_counter\<close>, the nodes already visited, belongs to the base
  class \<^verbatim>\<open>ExprVisitor\<close>, which is not part of the sources at hand. The traversal is
  single, over a graph with shared subexpressions: a node is visited once, at its first
  occurrence. The other fields are the members of \<^verbatim>\<open>StorageInfo\<close>.
\<close>

record storage_info =
  primitive_supports_texture :: bool
  storage_scope :: "string table"
  consumer_storage_scopes :: "string table"
  args_to_vars :: "nat table"
  visit_counter :: "nat list"

definition init_info :: storage_info where
  "init_info = \<lparr>primitive_supports_texture = False, storage_scope = [],
     consumer_storage_scopes = [], args_to_vars = [], visit_counter = []\<rparr>"

text \<open>
  \<^verbatim>\<open>t.count(k)\<close>; \<^verbatim>\<open>t[k]\<close>, which reads as the empty vector when the key is new;
  \<^verbatim>\<open>t[k].push_back(v)\<close>; \<^verbatim>\<open>t.erase(k)\<close>.
\<close>

definition tbl_count :: "'v table \<Rightarrow> nat \<Rightarrow> bool" where
  "tbl_count t k \<longleftrightarrow> map_of t k \<noteq> None"

definition tbl_at :: "'v table \<Rightarrow> nat \<Rightarrow> 'v list" where
  "tbl_at t k = (case map_of t k of None \<Rightarrow> [] | Some vs \<Rightarrow> vs)"

definition push_back :: "nat \<Rightarrow> 'v \<Rightarrow> 'v table \<Rightarrow> 'v table" where
  "push_back k v t = AList.update k (tbl_at t k @ [v]) t"

definition erase :: "nat \<Rightarrow> 'v table \<Rightarrow> 'v table" where
  "erase k t = AList.delete k t"

text \<open>\<^verbatim>\<open>StorageInfo::HasMixedStorageOutputs\<close>\<close>

definition HasMixedStorageOutputs :: "storage_info \<Rightarrow> nat \<Rightarrow> error + bool" where
  "HasMixedStorageOutputs st k =
     (case map_of (storage_scope st) k of
        None \<Rightarrow> Inr False
      | Some [] \<Rightarrow> Inl OutOfRange
      | Some (ref_scope # rest) \<Rightarrow> Inr (list_ex (\<lambda>scope. scope \<noteq> ref_scope) (ref_scope # rest)))"

definition mixed_msg :: string where
  "mixed_msg = ''Mixed output storage scopes are not currently supported''"

subsection \<open>The leaf rule: \<^verbatim>\<open>StorageInfo::ApplyConsumerScopeToInputs\<close>\<close>

text \<open>
  \<open>own_scope\<close> is the part that looks at the expression itself: the scope its shape
  fits, and whether it is rgba vectorizable.
\<close>

definition own_scope :: "expr \<Rightarrow> error + string \<times> bool" where
  "own_scope e =
     (case checked_type e of
        TensorType shape \<Rightarrow>
          (case Scope shape (vdev e) of
             Inl err \<Rightarrow> Inl err
           | Inr scope \<Rightarrow>
               if scope \<noteq> ''global'' then
                 (case shape of
                    [] \<Rightarrow> Inl (ICHECK ''IndexError: cannot index an empty array'')
                  | _ \<Rightarrow> Inr (scope, (case last shape of IntImm v \<Rightarrow> v = 4 | NonImm _ \<Rightarrow> False)))
               else Inr (scope, False))
      | _ \<Rightarrow> Inr ('''', False))"

definition ApplyConsumerScopeToInputs :: "expr \<Rightarrow> storage_info \<Rightarrow> error + storage_info" where
  "ApplyConsumerScopeToInputs e st =
     (case map_of (consumer_storage_scopes st) (addr e) of
        None \<Rightarrow> Inr st
      | Some consumer_scopes \<Rightarrow>
          (let consumer_scope = GetConsumerScope consumer_scopes in
           if tbl_count (storage_scope st) (addr e) then
             Inl (ICHECK ''Already propagated consumer scopes to input'')
           else
             (case own_scope e of
                Inl err \<Rightarrow> Inl err
              | Inr (scope, expr_is_rgba_vectorizable) \<Rightarrow>
                  if str_find consumer_scope ''global.texture'' \<noteq> None then
                    (if expr_is_rgba_vectorizable then
                       Inr (st\<lparr>storage_scope := push_back (addr e) scope (storage_scope st)\<rparr>)
                     else Inr st)
                  else
                    Inr (st\<lparr>storage_scope := push_back (addr e) consumer_scope (storage_scope st)\<rparr>))))"

subsection \<open>The forward collector: \<^verbatim>\<open>StorageInfo::DeviceAwareVisitExpr_\<close>\<close>

text \<open>
  Lines 118 to 139: when the callee was found to support textures, the call gets a
  candidate scope, and each argument is bound to the parameter of its position.
  \<^verbatim>\<open>call->args[i]\<close> beyond the arguments fails the bounds check of \<^verbatim>\<open>Array\<close>;
  \<^verbatim>\<open>type_as<TupleTypeNode>\<close> fails on a type that is not a tuple.
\<close>

fun bind_params :: "expr list \<Rightarrow> expr list \<Rightarrow> nat table \<Rightarrow> error + nat table" where
  "bind_params as [] t = Inr t"
| "bind_params [] (p # ps) t = Inl (ICHECK ''IndexError: indexing out of bounds'')"
| "bind_params (a # as) (p # ps) t = bind_params as ps (push_back (addr a) (addr p) t)"

definition propose_scope :: "expr \<Rightarrow> storage_info \<Rightarrow> error + storage_info" where
  "propose_scope call st =
     (if primitive_supports_texture st then
        (case (case checked_type call of
                 TensorType shape \<Rightarrow>
                   (case Scope shape (vdev call) of
                      Inl err \<Rightarrow> Inl err
                    | Inr scope \<Rightarrow> Inr (push_back (addr call) scope (storage_scope st)))
               | TupleType tuple_fields \<Rightarrow>
                   Inr (fold (\<lambda>_. push_back (addr call) ''global.texture'') tuple_fields (storage_scope st))
               | OtherType \<Rightarrow> Inl (ICHECK ''Expected type to be TupleTypeNode'')) of
           Inl err \<Rightarrow> Inl err
         | Inr scopes \<Rightarrow>
             (case bind_params (args call) (params (op call)) (args_to_vars st) of
                Inl err \<Rightarrow> Inl err
              | Inr bound \<Rightarrow> Inr (st\<lparr>storage_scope := scopes, args_to_vars := bound\<rparr>)))
      else Inr st)"

text \<open>Lines 140 to 149: one demand entry for each argument of the call at address \<open>c\<close>.\<close>

fun add_consumer_scopes :: "nat \<Rightarrow> expr list \<Rightarrow> storage_info \<Rightarrow> error + storage_info" where
  "add_consumer_scopes c [] st = Inr st"
| "add_consumer_scopes c (arg # rest) st =
     (if tbl_count (storage_scope st) c then
        (case HasMixedStorageOutputs st c of
           Inl err \<Rightarrow> Inl err
         | Inr mixed \<Rightarrow>
             if mixed then Inl (ICHECK mixed_msg)
             else add_consumer_scopes c rest
               (st\<lparr>consumer_storage_scopes :=
                  push_back (addr arg) ''global.texture'' (consumer_storage_scopes st)\<rparr>))
      else add_consumer_scopes c rest
        (st\<lparr>consumer_storage_scopes :=
           push_back (addr arg) ''global'' (consumer_storage_scopes st)\<rparr>))"

text \<open>Lines 163 to 173: the candidate of an argument whose consumers do not all ask for a
  texture is withdrawn, with that of the body of the function it calls.\<close>

fun retract_one :: "expr \<Rightarrow> storage_info \<Rightarrow> storage_info" where
  "retract_one (Call a (Function fa ps b prim) as at ty vd) st =
     st\<lparr>storage_scope := erase (addr b) (erase a (storage_scope st))\<rparr>"
| "retract_one arg st = st\<lparr>storage_scope := erase (addr arg) (storage_scope st)\<rparr>"

fun retract :: "expr list \<Rightarrow> storage_info \<Rightarrow> storage_info" where
  "retract [] st = st"
| "retract (arg # rest) st =
     retract rest
       (if tbl_count (consumer_storage_scopes st) (addr arg) \<and>
           GetConsumerScope (tbl_at (consumer_storage_scopes st) (addr arg)) \<noteq> ''global.texture''
        then retract_one arg st else st)"

text \<open>
  Modelled from the spec: the dispatch of the base classes \<^verbatim>\<open>ExprVisitor\<close> and
  \<^verbatim>\<open>DeviceAwareExprVisitor\<close> is not part of the sources at hand. \<open>VisitExpr\<close> is
  their entry: a node already visited is skipped, any other is dispatched on its kind
  and then marked. \<open>VisitNode\<close> stands for the overloads of \<^verbatim>\<open>VisitExpr_\<close>. On a
  \<open>Var\<close> or a \<open>Constant\<close> it is the leaf rule, and on a \<open>Call\<close> the body of
  \<^verbatim>\<open>DeviceAwareVisitExpr_\<close>, both from the source (the graph holds no placement
  annotation calls: each node carries its resolved descriptor). On a \<open>Function\<close>, which
  is reached this way only as the root of the graph or behind another function, it is
  the default of the base class, the parameters and then the body; an \<open>Op\<close> has nothing
  to visit. \<open>Visit\<close>, \<^verbatim>\<open>StorageInfo::Visit\<close> of the source, is what the collector
  applies to the callee and to the arguments of a call: the body of a function before
  its parameters.
\<close>

fun VisitExpr :: "expr \<Rightarrow> storage_info \<Rightarrow> error + storage_info"
  and VisitNode :: "expr \<Rightarrow> storage_info \<Rightarrow> error + storage_info"
  and Visit :: "expr \<Rightarrow> storage_info \<Rightarrow> error + storage_info"
  and VisitExprs :: "expr list \<Rightarrow> storage_info \<Rightarrow> error + storage_info"
  and VisitArgs :: "expr list \<Rightarrow> storage_info \<Rightarrow> error + storage_info"
where
  "VisitExpr e st =
     (if addr e \<in> set (visit_counter st) then Inr st
      else
        (case VisitNode e st of
           Inl err \<Rightarrow> Inl err
         | Inr st' \<Rightarrow> Inr (st'\<lparr>visit_counter := addr e # visit_counter st'\<rparr>)))"
| "VisitNode (Var a ty vd) st = ApplyConsumerScopeToInputs (Var a ty vd) st"
| "VisitNode (Constant a ty vd) st = ApplyConsumerScopeToInputs (Constant a ty vd) st"
| "VisitNode (Op a n) st = Inr st"
| "VisitNode (Function a ps b prim) st =
     (case VisitExprs ps st of
        Inl err \<Rightarrow> Inl err
      | Inr st1 \<Rightarrow> VisitExpr b st1)"
| "VisitNode (Call a f as at ty vd) st =
     (case
        (case f of
           Function fa ps b prim \<Rightarrow>
             if prim then
               (case Visit f (st\<lparr>primitive_supports_texture := False\<rparr>) of
                  Inl err \<Rightarrow> Inl err
                | Inr st1 \<Rightarrow>
                    (case propose_scope (Call a f as at ty vd) st1 of
                       Inl err \<Rightarrow> Inl err
                     | Inr st2 \<Rightarrow> add_consumer_scopes a as st2))
             else Inr st
         | _ \<Rightarrow> Inr st) of
        Inl err \<Rightarrow> Inl err
      | Inr st3 \<Rightarrow>
          (case VisitArgs as (st3\<lparr>primitive_supports_texture := SupportsTextureStorage at\<rparr>) of
             Inl err \<Rightarrow> Inl err
           | Inr st4 \<Rightarrow> Inr (retract as st4)))"
| "Visit e st =
     (case e of
        Function a ps b prim \<Rightarrow>
          (case VisitExpr b st of
             Inl err \<Rightarrow> Inl err
           | Inr st1 \<Rightarrow> VisitExprs ps st1)
      | _ \<Rightarrow> VisitExpr e st)"
| "VisitExprs [] st = Inr st"
| "VisitExprs (e # es) st =
     (case VisitExpr e st of
        Inl err \<Rightarrow> Inl err
      | Inr st1 \<Rightarrow> VisitExprs es st1)"
| "VisitArgs [] st = Inr st"
| "VisitArgs (e # es) st =
     (case Visit e st of
        Inl err \<Rightarrow> Inl err
      | Inr st1 \<Rightarrow> VisitArgs es st1)"

declare VisitExpr.simps [simp del] Visit.simps [simp del]

subsection \<open>Legalization: \<^verbatim>\<open>StorageInfo::LegalizeProducerStorage\<close>\<close>

text \<open>The loop over the entries \<open>kvs\<close> of the consumer-demand table.\<close>

fun legalize_loop :: "string table \<Rightarrow> storage_info \<Rightarrow> error + storage_info" where
  "legalize_loop [] st = Inr st"
| "legalize_loop ((producer, scopes) # kvs) st =
     (let legal_scope = GetConsumerScope scopes in
      if tbl_count (storage_scope st) producer then
        (case HasMixedStorageOutputs st producer of
           Inl err \<Rightarrow> Inl err
         | Inr mixed \<Rightarrow>
             if mixed then Inl (ICHECK mixed_msg)
             else
               (case tbl_at (storage_scope st) producer of
                  [] \<Rightarrow> Inl OutOfRange
                | first_scope # others \<Rightarrow>
                    if str_find first_scope legal_scope = None then
                      legalize_loop kvs
                        (st\<lparr>storage_scope :=
                           AList.update producer (map (\<lambda>_. legal_scope) (first_scope # others))
                             (storage_scope st)\<rparr>)
                    else legalize_loop kvs st))
      else legalize_loop kvs st)"

definition LegalizeProducerStorage :: "storage_info \<Rightarrow> error + storage_info" where
  "LegalizeProducerStorage st = legalize_loop (consumer_storage_scopes st) st"

subsection \<open>The final map: \<^verbatim>\<open>StorageInfo::GetStorageMap\<close>\<close>

text \<open>Lines 72 to 80: inputs that a texture consumer reads and that have no scope yet
  get the scope \<open>global\<close>.\<close>

fun fill_inputs :: "string table \<Rightarrow> string table \<Rightarrow> string table" where
  "fill_inputs [] storage_map = storage_map"
| "fill_inputs ((k, scopes) # cs) storage_map =
     fill_inputs cs
       (if CanConsumeTextures scopes \<and> map_of storage_map k = None
        then AList.update k [''global''] storage_map else storage_map)"

text \<open>
  The order in which a \<^verbatim>\<open>std::unordered_map\<close> is iterated depends on the hashes of
  its keys and is not specified. \<open>rank\<close> gives every key its place in that order:
  \<open>iteration rank t\<close> enumerates the entries of \<open>t\<close> by increasing rank, entries of
  equal rank in the order of the list. Every enumeration of a table with distinct keys is
  the iteration for some rank (lemma \<open>iteration_any_order\<close>): \<open>insertion_order\<close> gives
  the order of the list, \<open>address_order\<close> the order of the addresses.
\<close>

definition iteration :: "(nat \<Rightarrow> nat) \<Rightarrow> 'v table \<Rightarrow> 'v table" where
  "iteration rank t = sort_key (\<lambda>kv. rank (fst kv)) t"

definition insertion_order :: "nat \<Rightarrow> nat" where
  "insertion_order a = 0"

definition address_order :: "nat \<Rightarrow> nat" where
  "address_order a = a"

text \<open>Lines 84 to 90: the scope of an argument is copied to the parameters bound to it.
  \<open>add_vars\<close> is the loop over the entries as they are enumerated.\<close>

fun add_vars :: "nat table \<Rightarrow> string table \<Rightarrow> string table" where
  "add_vars [] storage_map = storage_map"
| "add_vars ((a, vs) # rest) storage_map =
     add_vars rest
       (if tbl_count storage_map a
        then fold (\<lambda>v m. AList.update v (tbl_at m a) m) vs storage_map
        else storage_map)"

text \<open>The map after lines 63 to 80, and the map returned when the argument-to-parameter
  table is iterated in the order \<open>rank\<close>.\<close>

definition filled_map :: "storage_info \<Rightarrow> string table" where
  "filled_map st = fill_inputs (consumer_storage_scopes st) (storage_scope st)"

definition final_map :: "(nat \<Rightarrow> nat) \<Rightarrow> storage_info \<Rightarrow> string table" where
  "final_map rank st = add_vars (iteration rank (args_to_vars st)) (filled_map st)"

definition GetStorageMap :: "(nat \<Rightarrow> nat) \<Rightarrow> expr \<Rightarrow> error + string table" where
  "GetStorageMap rank e =
     (case VisitExpr e init_info of
        Inl err \<Rightarrow> Inl err
      | Inr st \<Rightarrow>
          (case LegalizeProducerStorage st of
             Inl err \<Rightarrow> Inl err
           | Inr st' \<Rightarrow> Inr (final_map rank st')))"

definition CollectTextureStorage :: "(nat \<Rightarrow> nat) \<Rightarrow> expr \<Rightarrow> error + string table" where
  "CollectTextureStorage rank e = GetStorageMap rank e"

subsection \<open>Devices and dispatch: \<^verbatim>\<open>CollectVirtualDevices\<close>, \<^verbatim>\<open>CollectStorageInfo\<close>\<close>

text \<open>
  The state of \<^verbatim>\<open>CollectVirtualDevices\<close>: the \<^verbatim>\<open>std::set\<close> of device names, kept
  as a sorted list without duplicates, and the nodes already visited.
\<close>

record device_info =
  devices :: "string list"
  seen :: "nat list"

definition set_insert :: "string \<Rightarrow> string list \<Rightarrow> string list" where
  "set_insert x xs = insort_insert x xs"

text \<open>The device of one call: \<^verbatim>\<open>vd->target\<close> is read without a check.\<close>

fun note_device :: "virtual_device \<Rightarrow> device_info \<Rightarrow> error + device_info" where
  "note_device FullyUnconstrained st = Inr st"
| "note_device (VirtualDevice dt i None ms) st = Inl NullDeref"
| "note_device (VirtualDevice dt i (Some t) ms) st =
     (case device_attr t of
        None \<Rightarrow> Inr st
      | Some t_device \<Rightarrow>
          Inr (st\<lparr>devices := set_insert (kind_name t @ ''.'' @ t_device) (devices st)\<rparr>))"

text \<open>
  Modelled from the spec: the dispatch of the base class, as for \<open>VisitExpr\<close> above. The
  traversal of \<^verbatim>\<open>CollectVirtualDevices\<close> looks at calls only, and descends only into
  the arguments of a call.
\<close>

fun DevVisitExpr :: "expr \<Rightarrow> device_info \<Rightarrow> error + device_info"
  and DevVisitNode :: "expr \<Rightarrow> device_info \<Rightarrow> error + device_info"
  and DevVisit :: "expr \<Rightarrow> device_info \<Rightarrow> error + device_info"
  and DevVisitExprs :: "expr list \<Rightarrow> device_info \<Rightarrow> error + device_info"
  and DevVisitArgs :: "expr list \<Rightarrow> device_info \<Rightarrow> error + device_info"
where
  "DevVisitExpr e st =
     (if addr e \<in> set (seen st) then Inr st
      else
        (case DevVisitNode e st of
           Inl err \<Rightarrow> Inl err
         | Inr st' \<Rightarrow> Inr (st'\<lparr>seen := addr e # seen st'\<rparr>)))"
| "DevVisitNode (Var a ty vd) st = Inr st"
| "DevVisitNode (Constant a ty vd) st = Inr st"
| "DevVisitNode (Op a n) st = Inr st"
| "DevVisitNode (Function a ps b prim) st =
     (case DevVisitExprs ps st of
        Inl err \<Rightarrow> Inl err
      | Inr st1 \<Rightarrow> DevVisitExpr b st1)"
| "DevVisitNode (Call a f as at ty vd) st =
     (case note_device vd st of
        Inl err \<Rightarrow> Inl err
      | Inr st1 \<Rightarrow> DevVisitArgs as st1)"
| "DevVisit e st =
     (case e of
        Function a ps b prim \<Rightarrow>
          (case DevVisitExpr b st of
             Inl err \<Rightarrow> Inl err
           | Inr st1 \<Rightarrow> DevVisitExprs ps st1)
      | _ \<Rightarrow> DevVisitExpr e st)"
| "DevVisitExprs [] st = Inr st"
| "DevVisitExprs (e # es) st =
     (case DevVisitExpr e st of
        Inl err \<Rightarrow> Inl err
      | Inr st1 \<Rightarrow> DevVisitExprs es st1)"
| "DevVisitArgs [] st = Inr st"
| "DevVisitArgs (e # es) st =
     (case DevVisit e st of
        Inl err \<Rightarrow> Inl err
      | Inr st1 \<Rightarrow> DevVisitArgs es st1)"

declare DevVisitExpr.simps [simp del] DevVisit.simps [simp del]

definition GetDevices :: "expr \<Rightarrow> error + string list" where
  "GetDevices e =
     (case DevVisitExpr e \<lparr>devices = [], seen = []\<rparr> of
        Inl err \<Rightarrow> Inl err
      | Inr st \<Rightarrow> Inr (devices st))"

text \<open>
  The registry of global functions is a parameter: a partial map from names to
  analyses. \<open>tvm_registry rank\<close> holds the one registration of this file, the texture
  analysis (with the iteration order \<open>rank\<close>).
\<close>

type_synonym registry = "string \<Rightarrow> (expr \<Rightarrow> error + string table) option"

definition tvm_registry :: "(nat \<Rightarrow> nat) \<Rightarrow> registry" where
  "tvm_registry rank name =
     (if name = ''relay.backend.opencl.adreno._CollectStorageInfo''
      then Some (CollectTextureStorage rank) else None)"

definition ftarget_key :: "string list \<Rightarrow> string" where
  "ftarget_key device_types =
     fold (\<lambda>dev_id ftarget_prefix. ftarget_prefix @ (''.'' @ dev_id)) device_types ''relay.backend''
       @ ''._CollectStorageInfo''"

definition CollectStorageInfo :: "registry \<Rightarrow> expr \<Rightarrow> error + string table" where
  "CollectStorageInfo reg e =
     (case GetDevices e of
        Inl err \<Rightarrow> Inl err
      | Inr device_types \<Rightarrow>
          (case reg (ftarget_key device_types) of
             None \<Rightarrow> Inr []
           | Some f \<Rightarrow> f e))"

subsection \<open>The pass: \<^verbatim>\<open>AnnotateMemoryScopeExpr\<close>\<close>

text \<open>
  \<open>rewrite\<close> stands for \<^verbatim>\<open>RewriteVDStorageScopes(storage_scope).Rewrite\<close>, whose base
  class \<^verbatim>\<open>DeviceAwareExprMutator\<close> and annotation helper \<^verbatim>\<open>OnDevice\<close> are not part
  of the sources at hand; it is a parameter of the pass.
\<close>

definition AnnotateMemoryScopeExpr ::
  "registry \<Rightarrow> (string table \<Rightarrow> expr \<Rightarrow> error + expr) \<Rightarrow> expr \<Rightarrow> error + expr" where
  "AnnotateMemoryScopeExpr reg rewrite e =
     (case CollectStorageInfo reg e of
        Inl err \<Rightarrow> Inl err
      | Inr scope_map \<Rightarrow>
          if length scope_map \<noteq> 0 then rewrite scope_map e else Inr e)"

section \<open>Notions used in the statements\<close>

subsection \<open>The scope-fit rule in the words of the specification\<close>

text \<open>
  The rule as the specification words it, over unbounded integers: three candidate
  reshapes (rows, cols, label); a candidate is eligible when rows and cols are both
  strictly below the limit; among the eligible ones the minimum of \<open>\<bar>rows - cols\<bar>\<close>
  is chosen, and on an exact tie the later candidate wins.
\<close>

definition texture_suffix :: "string \<Rightarrow> string" where
  "texture_suffix label = (if label = '''' then '''' else ''-'' @ label)"

fun best_candidate :: "(int \<times> string) list \<Rightarrow> (int \<times> string) option" where
  "best_candidate [] = None"
| "best_candidate (c # cs) =
     (case best_candidate cs of
        None \<Rightarrow> Some c
      | Some b \<Rightarrow> if fst c < fst b then Some c else Some b)"

definition FitScope_spec :: "int \<Rightarrow> int \<Rightarrow> int \<Rightarrow> int \<Rightarrow> int \<Rightarrow> string" where
  "FitScope_spec limit a0 a1 a2 a3 =
     (let candidates = [(a0 * a1 * a2, a3, ''''), (a0 * a1, a2 * a3, ''nhwc''), (a0, a1 * a2 * a3, ''weight'')];
          eligible = filter (\<lambda>(rows, cols, label). rows < limit \<and> cols < limit) candidates
      in case best_candidate (map (\<lambda>(rows, cols, label). (\<bar>rows - cols\<bar>, label)) eligible) of
           None \<Rightarrow> ''global''
         | Some (d, label) \<Rightarrow> ''global.texture'' @ texture_suffix label)"

text \<open>The value of \<^verbatim>\<open>texture_spatial_limit\<close> of a target, 16384 when it is not set.\<close>

definition limit_of :: "target \<Rightarrow> int" where
  "limit_of t = (case texture_spatial_limit t of None \<Rightarrow> 16384 | Some l \<Rightarrow> l)"

definition fits_int32 :: "int \<Rightarrow> bool" where
  "fits_int32 x \<longleftrightarrow> - (2 ^ 31) \<le> x \<and> x < 2 ^ 31"

subsection \<open>Tables and results\<close>

text \<open>
  The keys of a table and the values stored in it; a list whose entries are all equal;
  a table with no empty entry. \<open>scope_of\<close>, \<open>candidate_of\<close> and \<open>demand_of\<close> read the
  entry of a node in the result of the analysis, in the candidate-scope table and in the
  consumer-demand table.
\<close>

definition keys :: "'v table \<Rightarrow> nat set" where
  "keys t = fst ` set t"

definition vals :: "'v table \<Rightarrow> 'v set" where
  "vals t = (\<Union>kv\<in>set t. set (snd kv))"

definition uniform :: "'a list \<Rightarrow> bool" where
  "uniform xs \<longleftrightarrow> (\<forall>x\<in>set xs. \<forall>y\<in>set xs. x = y)"

definition nonempty_entries :: "'v table \<Rightarrow> bool" where
  "nonempty_entries t \<longleftrightarrow> (\<forall>k xs. map_of t k = Some xs \<longrightarrow> xs \<noteq> [])"

definition scope_of :: "error + string table \<Rightarrow> nat \<Rightarrow> string list option" where
  "scope_of r k = (case r of Inl err \<Rightarrow> None | Inr m \<Rightarrow> map_of m k)"

definition candidate_of :: "error + storage_info \<Rightarrow> nat \<Rightarrow> string list option" where
  "candidate_of r k = (case r of Inl err \<Rightarrow> None | Inr st \<Rightarrow> map_of (storage_scope st) k)"

definition demand_of :: "error + storage_info \<Rightarrow> nat \<Rightarrow> string list option" where
  "demand_of r k = (case r of Inl err \<Rightarrow> None | Inr st \<Rightarrow> map_of (consumer_storage_scopes st) k)"

text \<open>The state of the analysis of a graph after the traversal and legalization, before
  the final map is built.\<close>

definition legalized_state :: "expr \<Rightarrow> error + storage_info" where
  "legalized_state e =
     (case VisitExpr e init_info of
        Inl err \<Rightarrow> Inl err
      | Inr st \<Rightarrow> LegalizeProducerStorage st)"

text \<open>The place of a key in a list of keys.\<close>

fun position :: "nat \<Rightarrow> nat list \<Rightarrow> nat" where
  "position k [] = 0"
| "position k (x # xs) = (if x = k then 0 else Suc (position k xs))"

text \<open>What legalization makes of the candidate list \<open>xs\<close> of the producer \<open>k\<close>, given the
  consumer-demand table \<open>cs\<close>.\<close>

definition legalized :: "string table \<Rightarrow> nat \<Rightarrow> string list \<Rightarrow> string list" where
  "legalized cs k xs =
     (case map_of cs k of
        None \<Rightarrow> xs
      | Some d \<Rightarrow>
          if str_find (hd xs) (GetConsumerScope d) = None
          then replicate (length xs) (GetConsumerScope d) else xs)"

subsection \<open>Call sites in a graph\<close>

text \<open>
  The nodes of a graph, and in it the calls whose operator is a function carrying the
  primitive attribute: \<open>demand_sites\<close> are the addresses of the arguments of such calls,
  \<open>primitive_calls\<close> the addresses of the calls themselves, \<open>bound_params\<close> the
  addresses of the parameters of the functions they call.
\<close>

fun subexprs :: "expr \<Rightarrow> expr list" where
  "subexprs (Var a ty vd) = [Var a ty vd]"
| "subexprs (Constant a ty vd) = [Constant a ty vd]"
| "subexprs (Op a n) = [Op a n]"
| "subexprs (Call a f as at ty vd) =
     Call a f as at ty vd # subexprs f @ concat (map subexprs as)"
| "subexprs (Function a ps b prim) =
     Function a ps b prim # concat (map subexprs ps) @ subexprs b"

fun is_primitive_call :: "expr \<Rightarrow> bool" where
  "is_primitive_call (Call a (Function fa ps b prim) as at ty vd) = prim"
| "is_primitive_call e = False"

definition primitive_calls_in :: "expr \<Rightarrow> expr list" where
  "primitive_calls_in e = filter is_primitive_call (subexprs e)"

definition demand_sites :: "expr \<Rightarrow> nat set" where
  "demand_sites e = set (map addr (concat (map args (primitive_calls_in e))))"

definition primitive_calls :: "expr \<Rightarrow> nat set" where
  "primitive_calls e = set (map addr (primitive_calls_in e))"

definition bound_params :: "expr \<Rightarrow> nat set" where
  "bound_params e = set (map addr (concat (map (\<lambda>c. params (op c)) (primitive_calls_in e))))"

text \<open>
  The invariant of the collector, relative to three sets of addresses: demand is recorded
  only for addresses in \<open>D\<close>, candidates only for addresses in \<open>C\<close> or \<open>D\<close>, bindings
  only from addresses in \<open>D\<close> to addresses in \<open>P\<close>; the keys of the demand table and
  of the binding table are distinct and no candidate list is empty. A graph is covered
  by the three sets when each of its calls of a primitive function has its address in \<open>C\<close>, those of its
  arguments in \<open>D\<close> and those of the parameters in \<open>P\<close>.
\<close>

definition site_ok :: "nat set \<Rightarrow> nat set \<Rightarrow> nat set \<Rightarrow> expr \<Rightarrow> bool" where
  "site_ok D C P c \<longleftrightarrow>
     addr c \<in> C \<and> addr ` set (args c) \<subseteq> D \<and> addr ` set (params (op c)) \<subseteq> P"

definition covered :: "nat set \<Rightarrow> nat set \<Rightarrow> nat set \<Rightarrow> expr \<Rightarrow> bool" where
  "covered D C P e \<longleftrightarrow> (\<forall>c\<in>set (primitive_calls_in e). site_ok D C P c)"

definition collector_inv :: "nat set \<Rightarrow> nat set \<Rightarrow> nat set \<Rightarrow> storage_info \<Rightarrow> bool" where
  "collector_inv D C P st \<longleftrightarrow>
     keys (consumer_storage_scopes st) \<subseteq> D \<and>
     keys (storage_scope st) \<subseteq> C \<union> D \<and>
     keys (args_to_vars st) \<subseteq> D \<and>
     vals (args_to_vars st) \<subseteq> P \<and>
     distinct (map fst (consumer_storage_scopes st)) \<and>
     distinct (map fst (args_to_vars st)) \<and>
     nonempty_entries (storage_scope st)"

subsection \<open>Example graphs\<close>

text \<open>An adreno placement, used in the examples.\<close>

definition adreno :: target where
  "adreno = \<lparr>kind_name = ''opencl'', device_attr = Some ''adreno'', texture_spatial_limit = Some 16384\<rparr>"

definition adreno_vd :: virtual_device where
  "adreno_vd = VirtualDevice 4 0 (Some adreno) ''''"

text \<open>
  A convolution in a primitive function, called once: \<open>fn (data, weight) { g(data, weight) }\<close>
  with \<open>g = fn [Primitive] (p0, p1) { conv2d(p0, p1) }\<close>, layouts \<open>NCHW4c\<close> and
  \<open>OIHW4o\<close>, on an adreno placement. The addresses: the outer function 0, \<open>data\<close> 1,
  \<open>weight\<close> 2, the call 3, \<open>g\<close> 4, \<open>p0\<close> 5, \<open>p1\<close> 6, the inner call 7, the operator 8.
  \<open>conv_graph out\<close> has the result type \<open>out\<close>.
\<close>

definition data_type :: rtype where
  "data_type = TensorType [IntImm 1, IntImm 4, IntImm 10, IntImm 10, IntImm 4]"

definition weight_type :: rtype where
  "weight_type = TensorType [IntImm 4, IntImm 16, IntImm 3, IntImm 3, IntImm 4]"

definition conv_prim :: "rtype \<Rightarrow> expr" where
  "conv_prim out =
     Function 4 [Var 5 data_type adreno_vd, Var 6 weight_type adreno_vd]
       (Call 7 (Op 8 ''nn.conv2d'') [Var 5 data_type adreno_vd, Var 6 weight_type adreno_vd]
          (Conv2DAttrs ''NCHW4c'' ''OIHW4o'') out adreno_vd)
       True"

definition conv_call :: "rtype \<Rightarrow> expr" where
  "conv_call out =
     Call 3 (conv_prim out) [Var 1 data_type adreno_vd, Var 2 weight_type adreno_vd]
       NoAttrs out adreno_vd"

definition conv_graph :: "rtype \<Rightarrow> expr" where
  "conv_graph out =
     Function 0 [Var 1 data_type adreno_vd, Var 2 weight_type adreno_vd] (conv_call out) False"

definition scenario_A :: expr where
  "scenario_A = conv_graph (TensorType [IntImm 1, IntImm 4, IntImm 8, IntImm 8, IntImm 4])"

text \<open>
  A fused primitive function whose result is not packed:
  \<open>fn (data) { g(data, weight, scale) }\<close> with
  \<open>g = fn [Primitive] (p0, p1, p2) { layout_transform(multiply(conv2d(p0, p1), p2)) }\<close>,
  where \<open>weight\<close> and \<open>scale\<close> are constants and \<open>scale\<close> is a scalar. The addresses:
  the outer function 0, \<open>data\<close> 1, \<open>weight\<close> 2, \<open>scale\<close> 13, the call 3, \<open>g\<close> 4, \<open>p0\<close> 5,
  \<open>p1\<close> 6, \<open>p2\<close> 14, the calls of \<open>conv2d\<close> 7, \<open>multiply\<close> 11 and \<open>layout_transform\<close> 9.
  \<open>fused_before\<close> is the state in which the call 3 is given its candidate scope, after
  the visit of \<open>g\<close>.
\<close>

definition scalar_type :: rtype where
  "scalar_type = TensorType []"

definition nchw_out_type :: rtype where
  "nchw_out_type = TensorType [IntImm 1, IntImm 16, IntImm 8, IntImm 8]"

definition packed_out_type :: rtype where
  "packed_out_type = TensorType [IntImm 1, IntImm 4, IntImm 8, IntImm 8, IntImm 4]"

definition fused_prim :: expr where
  "fused_prim =
     Function 4
       [Var 5 data_type adreno_vd, Var 6 weight_type adreno_vd, Var 14 scalar_type adreno_vd]
       (Call 9 (Op 10 ''layout_transform'')
          [Call 11 (Op 12 ''multiply'')
             [Call 7 (Op 8 ''nn.conv2d'')
                [Var 5 data_type adreno_vd, Var 6 weight_type adreno_vd]
                (Conv2DAttrs ''NCHW4c'' ''OIHW4o'') packed_out_type adreno_vd,
              Var 14 scalar_type adreno_vd]
             NoAttrs packed_out_type adreno_vd]
          (OtherAttrs ''LayoutTransformAttrs'') nchw_out_type adreno_vd)
       True"

definition fused_call :: expr where
  "fused_call =
     Call 3 fused_prim
       [Var 1 data_type adreno_vd, Constant 2 weight_type adreno_vd,
        Constant 13 scalar_type adreno_vd]
       NoAttrs nchw_out_type adreno_vd"

definition fused_graph :: expr where
  "fused_graph = Function 0 [Var 1 data_type adreno_vd] fused_call False"

definition fused_before :: storage_info where
  "fused_before =
     init_info\<lparr>primitive_supports_texture := True, visit_counter := [9, 11, 14, 7, 6, 5]\<rparr>"

text \<open>
  A primitive function that calls a primitive function on its own parameter:
  \<open>g(input)\<close> with
  \<open>g = fn [Primitive] (p0) { multiply(h(p0), global_avg_pool2d(p0)) }\<close> and
  \<open>h = fn [Primitive] (q0) { global_max_pool2d(q0) }\<close>, where \<open>input\<close> is a constant on
  an adreno placement and the nodes inside \<open>g\<close> carry no placement. The addresses:
  \<open>input\<close> 2, the call of \<open>g\<close> 3, \<open>g\<close> 4, \<open>p0\<close> 5, the call of \<open>h\<close> 7, \<open>h\<close> 8, \<open>q0\<close> 9,
  the calls of \<open>global_max_pool2d\<close> 10, \<open>multiply\<close> 12 and \<open>global_avg_pool2d\<close> 14.
  The binding table holds \<open>p0 \<mapsto> [q0]\<close> and \<open>input \<mapsto> [p0]\<close>.
\<close>

definition pooled_type :: rtype where
  "pooled_type = TensorType [IntImm 1, IntImm 4, IntImm 1, IntImm 1, IntImm 4]"

definition chain_inner :: expr where
  "chain_inner =
     Function 8 [Var 9 data_type FullyUnconstrained]
       (Call 10 (Op 11 ''nn.global_max_pool2d'') [Var 9 data_type FullyUnconstrained]
          (GlobalPool2DAttrs ''NCHW4c'') pooled_type FullyUnconstrained)
       True"

definition chain_prim :: expr where
  "chain_prim =
     Function 4 [Var 5 data_type FullyUnconstrained]
       (Call 12 (Op 13 ''multiply'')
          [Call 7 chain_inner [Var 5 data_type FullyUnconstrained]
             NoAttrs pooled_type FullyUnconstrained,
           Call 14 (Op 15 ''nn.global_avg_pool2d'') [Var 5 data_type FullyUnconstrained]
             (GlobalPool2DAttrs ''NCHW4c'') pooled_type FullyUnconstrained]
          NoAttrs pooled_type FullyUnconstrained)
       True"

definition chain_graph :: expr where
  "chain_graph =
     Call 3 chain_prim [Constant 2 data_type adreno_vd] NoAttrs pooled_type adreno_vd"

text \<open>Two states for legalization: one producer with mixed candidates, and one producer
  whose candidate \<open>global\<close> does not contain the demand of its consumers.\<close>

definition mixed_state :: storage_info where
  "mixed_state = init_info\<lparr>storage_scope := [(1, [''global.texture'', ''global''])],
     consumer_storage_scopes := [(1, [''global.texture''])]\<rparr>"

definition promoted_state :: storage_info where
  "promoted_state = init_info\<lparr>storage_scope := [(1, [''global'']), (2, [''global''])],
     consumer_storage_scopes := [(1, [''global.texture''])]\<rparr>"

section \<open>Properties\<close>

subsection \<open>String search\<close>

lemma str_find_None_iff: "str_find s t = None \<longleftrightarrow> \<not> sublist t s"
proof (induction s)
  case Nil
  then show ?case by simp
next
  case (Cons c s)
  then show ?case by (cases t) (auto simp: sublist_Cons_right)
qed

lemma str_find_zero_iff: "str_find s t = Some 0 \<longleftrightarrow> prefix t s"
  by (cases s) auto

subsection \<open>The scope-fit evaluator\<close>

lemma int32_nonneg: "0 \<le> x \<Longrightarrow> x < 2 ^ 31 \<Longrightarrow> int32 x = x"
  by (simp add: int32_def)

lemma int32_mult_left: "int32 (int32 x * y) = int32 (x * y)"
proof -
  have "((x + 2 ^ 31) mod 2 ^ 32 - 2 ^ 31) * y mod 2 ^ 32 = x * y mod (2 ^ 32 :: int)"
    by (metis (no_types) add_diff_cancel_right' mod_diff_left_eq mod_mult_left_eq)
  then have "(((x + 2 ^ 31) mod 2 ^ 32 - 2 ^ 31) * y + 2 ^ 31) mod 2 ^ 32 = (x * y + 2 ^ 31) mod (2 ^ 32 :: int)"
    by (metis (no_types) mod_add_left_eq)
  then show ?thesis by (simp add: int32_def)
qed

lemma sub32_abs:
  assumes "0 \<le> r" "r < 2 ^ 31" "0 \<le> c" "c < 2 ^ 31"
  shows "(if r > c then sub32 r c else sub32 c r) = \<bar>r - c\<bar>"
  using assms by (auto simp: sub32_def int32_def)

lemma fit_core:
  assumes "e3 \<longleftrightarrow> r3 < limit \<and> c3 < limit" "e2 \<longleftrightarrow> r2 < limit \<and> c2 < limit"
    "e1 \<longleftrightarrow> r1 < limit \<and> c1 < limit"
  shows "(case diffs_begin
      (if e1 then diffs_assign \<bar>r1 - c1\<bar> ''weight''
         (if e2 then diffs_assign \<bar>r2 - c2\<bar> ''nhwc'' (if e3 then diffs_assign \<bar>r3 - c3\<bar> '''' [] else [])
          else (if e3 then diffs_assign \<bar>r3 - c3\<bar> '''' [] else []))
       else (if e2 then diffs_assign \<bar>r2 - c2\<bar> ''nhwc'' (if e3 then diffs_assign \<bar>r3 - c3\<bar> '''' [] else [])
          else (if e3 then diffs_assign \<bar>r3 - c3\<bar> '''' [] else []))) of
      None \<Rightarrow> ''global''
    | Some (d, label) \<Rightarrow> if label \<noteq> '''' then ''global.texture'' @ (''-'' @ label) else ''global.texture'') =
   (case best_candidate
      (map (\<lambda>(rows, cols, label). (\<bar>rows - cols\<bar>, label))
        (filter (\<lambda>(rows, cols, label). rows < limit \<and> cols < limit)
          [(r3, c3, ''''), (r2, c2, ''nhwc''), (r1, c1, ''weight'')])) of
      None \<Rightarrow> ''global''
    | Some (d, label) \<Rightarrow> ''global.texture'' @ texture_suffix label)"
proof -
  have f3: "(r3 < limit \<and> c3 < limit) = e3" and f2: "(r2 < limit \<and> c2 < limit) = e2"
    and f1: "(r1 < limit \<and> c1 < limit) = e1"
    using assms by simp_all
  show ?thesis
    by (cases e1; cases e2; cases e3)
      (simp_all add: f1 f2 f3 diffs_assign_def texture_suffix_def)
qed

lemma fit_no_overflow:
  assumes nonneg: "0 \<le> a0" "0 \<le> a1" "0 \<le> a2" "0 \<le> a3"
    and small: "a0 < 2 ^ 31" "a3 < 2 ^ 31" "a0 * a1 < 2 ^ 31" "a2 * a3 < 2 ^ 31"
      "a0 * a1 * a2 < 2 ^ 31" "a1 * a2 * a3 < 2 ^ 31"
  shows "fit limit a0 a1 a2 a3 = FitScope_spec limit a0 a1 a2 a3"
proof -
  have n2l: "0 \<le> a0 * a1" and n2r: "0 \<le> a2 * a3"
    and n3: "0 \<le> a0 * a1 * a2" and n1: "0 \<le> a1 * a2 * a3"
    using nonneg by simp_all
  have p2l: "mul32 a0 a1 = a0 * a1"
    unfolding mul32_def by (rule int32_nonneg [OF n2l small(3)])
  have p2r: "mul32 a2 a3 = a2 * a3"
    unfolding mul32_def by (rule int32_nonneg [OF n2r small(4)])
  have p3: "mul32 (a0 * a1) a2 = a0 * a1 * a2"
    unfolding mul32_def by (rule int32_nonneg [OF n3 small(5)])
  have p1: "mul32 (mul32 a1 a2) a3 = a1 * a2 * a3"
    unfolding mul32_def int32_mult_left by (rule int32_nonneg [OF n1 small(6)])
  have d3: "(if a0 * a1 * a2 > a3 then sub32 (a0 * a1 * a2) a3 else sub32 a3 (a0 * a1 * a2)) = \<bar>a0 * a1 * a2 - a3\<bar>"
    by (rule sub32_abs [OF n3 small(5) nonneg(4) small(2)])
  have d2: "(if a0 * a1 > a2 * a3 then sub32 (a0 * a1) (a2 * a3) else sub32 (a2 * a3) (a0 * a1)) = \<bar>a0 * a1 - a2 * a3\<bar>"
    by (rule sub32_abs [OF n2l small(3) n2r small(4)])
  have d1: "(if a0 > a1 * a2 * a3 then sub32 a0 (a1 * a2 * a3) else sub32 (a1 * a2 * a3) a0) = \<bar>a0 - a1 * a2 * a3\<bar>"
    by (rule sub32_abs [OF nonneg(1) small(1) n1 small(6)])
  show ?thesis
    unfolding fit_def FitScope_spec_def Let_def p2l p2r p3 p1 d3 d2 d1
    by (rule fit_core) (rule refl)+
qed


lemma best_candidate_None: "best_candidate cs = None \<longleftrightarrow> cs = []"
  by (cases cs) (auto split: option.splits)

lemma best_candidate_least:
  "best_candidate cs = Some b \<Longrightarrow> b \<in> set cs \<and> (\<forall>c\<in>set cs. fst b \<le> fst c)"
  by (induction cs arbitrary: b)
    (fastforce simp: best_candidate_None split: option.splits if_splits)+

lemma best_candidate_tie: "best_candidate [(d, x), (d, y)] = Some (d, y)"
  by simp

lemma Scope_global:
  assumes "length shape \<noteq> 5 \<or> vd = FullyUnconstrained \<or> (\<exists>v. shape ! 4 = IntImm v \<and> v \<noteq> 4)"
  shows "Scope shape vd = Inr ''global''"
  using assms by (auto simp: Scope_def)

text \<open>
  Claim C3, as the code has it. For a 5-dimensional shape of non-negative integer
  dimensions with last dimension 4 and a constrained placement with a target, where the
  four leading dimensions, the row and column products of the three reshapes and the
  limit fit in a signed 32-bit integer, \<open>Scope\<close> returns what the rule of the
  specification gives: \<open>global\<close> when no candidate is eligible, otherwise
  \<open>global.texture\<close> suffixed with the label of the eligible candidate of least
  \<open>\<bar>rows - cols\<bar>\<close>, the later one on a tie. For a shape that is not 5-dimensional, or
  an unconstrained placement, or a 5-dimensional shape whose last dimension is an
  integer other than 4, it returns \<open>global\<close>.
\<close>

theorem Scope_fit_rule:
  "(0 \<le> a0 \<and> 0 \<le> a1 \<and> 0 \<le> a2 \<and> 0 \<le> a3 \<and>
    (\<forall>x\<in>set [a0, a1, a2, a3, a0 * a1, a2 * a3, a0 * a1 * a2, a1 * a2 * a3, limit_of t].
       fits_int32 x) \<longrightarrow>
    Scope [IntImm a0, IntImm a1, IntImm a2, IntImm a3, IntImm 4] (VirtualDevice dt i (Some t) ms) =
      Inr (FitScope_spec (limit_of t) a0 a1 a2 a3)) \<and>
   (length shape \<noteq> 5 \<or> vd = FullyUnconstrained \<or> (\<exists>v. shape ! 4 = IntImm v \<and> v \<noteq> 4) \<longrightarrow>
    Scope shape vd = Inr ''global'')"
proof (intro conjI impI)
  assume h: "0 \<le> a0 \<and> 0 \<le> a1 \<and> 0 \<le> a2 \<and> 0 \<le> a3 \<and>
    (\<forall>x\<in>set [a0, a1, a2, a3, a0 * a1, a2 * a3, a0 * a1 * a2, a1 * a2 * a3, limit_of t].
       fits_int32 x)"
  then have nonneg: "0 \<le> a0" "0 \<le> a1" "0 \<le> a2" "0 \<le> a3"
    and small: "a0 < 2 ^ 31" "a3 < 2 ^ 31" "a0 * a1 < 2 ^ 31" "a2 * a3 < 2 ^ 31"
      "a0 * a1 * a2 < 2 ^ 31" "a1 * a2 * a3 < 2 ^ 31"
    and mid: "a1 < 2 ^ 31" "a2 < 2 ^ 31"
    and lim: "- (2 ^ 31) \<le> limit_of t" "limit_of t < 2 ^ 31"
    by (simp_all add: fits_int32_def)
  have narrow: "int32 a0 = a0" "int32 a1 = a1" "int32 a2 = a2" "int32 a3 = a3"
    using nonneg small(1,2) mid by (simp_all add: int32_nonneg)
  have l: "spatial_limit (VirtualDevice dt i (Some t) ms) = Inr (limit_of t)"
    using lim by (simp add: limit_of_def int32_def)
  show "Scope [IntImm a0, IntImm a1, IntImm a2, IntImm a3, IntImm 4] (VirtualDevice dt i (Some t) ms) =
      Inr (FitScope_spec (limit_of t) a0 a1 a2 a3)"
    by (simp add: Scope_def l narrow fit_no_overflow [OF nonneg small] del: spatial_limit.simps)
next
  assume "length shape \<noteq> 5 \<or> vd = FullyUnconstrained \<or> (\<exists>v. shape ! 4 = IntImm v \<and> v \<noteq> 4)"
  then show "Scope shape vd = Inr ''global''"
    by (rule Scope_global)
qed

theorem Scope_fit_rule_witness:
  "Scope [IntImm 1, IntImm 4, IntImm 8, IntImm 8, IntImm 4] adreno_vd = Inr ''global.texture'' \<and>
   Scope [IntImm 1, IntImm 4, IntImm 8, IntImm 8, IntImm 3] adreno_vd = Inr ''global''"
  using Scope_fit_rule [of 1 4 8 8 adreno 4 0 "''''"
      "[IntImm 1, IntImm 4, IntImm 8, IntImm 8, IntImm 3]" adreno_vd]
  by (simp add: adreno_vd_def adreno_def limit_of_def fits_int32_def FitScope_spec_def
      texture_suffix_def)

text \<open>
  Claim C3 as stated, for every shape of integer dimensions, does not hold: the
  dimension \<open>2\<^sup>3\<^sup>2 + 1\<close> is narrowed to the \<^verbatim>\<open>int\<close> 1, so all three candidates
  are eligible with difference 0 and the last one wins, where the rule of the
  specification finds no eligible candidate.
\<close>

theorem Scope_fit_rule_counterexample:
  "Scope [IntImm 4294967297, IntImm 1, IntImm 1, IntImm 1, IntImm 4] adreno_vd =
     Inr ''global.texture-weight'' \<and>
   FitScope_spec 16384 4294967297 1 1 1 = ''global''"
  by (simp add: Scope_def adreno_vd_def adreno_def fit_def int32_def mul32_def sub32_def
      diffs_assign_def FitScope_spec_def)

text \<open>
  Claim C8, as the code has it. On a 5-dimensional shape with a dimension that is not an
  integer literal, \<open>Scope\<close> returns \<open>global\<close>, without any error, when the placement is
  unconstrained or the last dimension is an integer literal other than 4.
\<close>

theorem Scope_symbolic_defaults:
  assumes "length shape = 5" and "\<exists>d\<in>set shape. \<forall>v. d \<noteq> IntImm v"
    and "vd = FullyUnconstrained \<or> (\<exists>v. shape ! 4 = IntImm v \<and> v \<noteq> 4)"
  shows "Scope shape vd = Inr ''global''"
  using assms(3) by (auto simp: Scope_def)

theorem Scope_symbolic_defaults_witness:
  "Scope [NonImm ''n'', IntImm 4, IntImm 8, IntImm 8, IntImm 4] FullyUnconstrained = Inr ''global''"
  using Scope_symbolic_defaults
    [of "[NonImm ''n'', IntImm 4, IntImm 8, IntImm 8, IntImm 4]" FullyUnconstrained]
  by simp

text \<open>
  Claim C8 as stated does not hold: a constrained 5-dimensional shape with a symbolic
  leading dimension and last dimension 8 is given the scope \<open>global\<close>, with no error.
\<close>

theorem Scope_symbolic_counterexample:
  "Scope [NonImm ''n'', IntImm 1, IntImm 1, IntImm 1, IntImm 8] adreno_vd = Inr ''global''"
  by (simp add: Scope_def adreno_vd_def)

text \<open>The only error \<open>Scope\<close> can end in is the null dereference: it has no \<^verbatim>\<open>ICHECK\<close>.\<close>

lemma Scope_error: "Scope shape vd = Inl e \<Longrightarrow> e = NullDeref"
  by (cases vd; cases "vd_target vd")
    (auto simp: Scope_def split: if_splits sum.splits elim!: imm_value.elims)

subsection \<open>Demand unification\<close>

lemma consumer_loop_eq:
  "consumer_loop cs = (if \<forall>c\<in>set cs. sublist texture_tag c then texture_tag else ''global'')"
  by (induction cs) (auto simp: str_find_None_iff)

lemma sublist_texture_tag:
  "sublist texture_tag ''global.texture''"
  "sublist texture_tag ''global.texture-nhwc''"
  "\<not> sublist texture_tag ''global''"
proof -
  show "sublist texture_tag ''global.texture''"
    by (simp add: texture_tag_def)
  show "sublist texture_tag ''global.texture-nhwc''"
    by (rule prefix_imp_sublist) (simp add: texture_tag_def)
  show "\<not> sublist texture_tag ''global''"
    using sublist_length_le [of texture_tag "''global''"] by (auto simp: texture_tag_def)
qed

text \<open>
  Claim C5. \<open>GetConsumerScope\<close> returns \<open>global\<close> for the empty list and for every list
  with an entry that does not contain the texture tag \<open>global.texture\<close>, and the texture
  tag for every non-empty list whose entries all contain it.
\<close>

theorem GetConsumerScope_unanimity:
  "texture_tag = ''global.texture'' \<and>
   GetConsumerScope cs =
     (if cs \<noteq> [] \<and> (\<forall>c\<in>set cs. sublist texture_tag c) then texture_tag else ''global'')"
  by (simp add: GetConsumerScope_def consumer_loop_eq texture_tag_def)

theorem GetConsumerScope_unanimity_witness:
  "GetConsumerScope [''global.texture'', ''global.texture-nhwc''] = ''global.texture'' \<and>
   GetConsumerScope [''global.texture'', ''global''] = ''global'' \<and>
   GetConsumerScope [] = ''global''"
  using GetConsumerScope_unanimity [of "[''global.texture'', ''global.texture-nhwc'']"]
    GetConsumerScope_unanimity [of "[''global.texture'', ''global'']"]
    GetConsumerScope_unanimity [of "[]"]
  by (simp add: sublist_texture_tag)

subsection \<open>Tables\<close>

lemma keys_dom: "keys t = dom (map_of t)"
  by (simp add: keys_def dom_map_of_conv_image_fst)

lemma tbl_count_keys: "tbl_count t k \<longleftrightarrow> k \<in> keys t"
  by (auto simp: tbl_count_def keys_dom)

lemma keys_update: "keys (AList.update k v t) = insert k (keys t)"
  by (simp add: keys_dom update_conv')

lemma keys_push_back: "keys (push_back k v t) = insert k (keys t)"
  by (simp add: push_back_def keys_update)

lemma keys_erase: "keys (erase k t) = keys t - {k}"
  by (auto simp: erase_def keys_dom delete_conv')

lemma map_of_push_back:
  "map_of (push_back k v t) k' = (if k' = k then Some (tbl_at t k @ [v]) else map_of t k')"
  by (simp add: push_back_def update_conv')

lemma tbl_at_push_back:
  "tbl_at (push_back k v t) k' = (if k' = k then tbl_at t k @ [v] else tbl_at t k')"
  by (simp add: tbl_at_def map_of_push_back)

lemma keys_fold_push_back:
  "keys (fold (\<lambda>x. push_back k v) xs t) = (if xs = [] then keys t else insert k (keys t))"
  by (induction xs arbitrary: t) (auto simp: keys_push_back)

lemma tbl_at_fold_push_back:
  "tbl_at (fold (\<lambda>a. push_back (addr a) v) as t) k =
     tbl_at t k @ replicate (count_list (map addr as) k) v"
  by (induction as arbitrary: t) (auto simp: tbl_at_push_back replicate_app_Cons_same)



lemma set_update_subset: "set (AList.update k v t) \<subseteq> insert (k, v) (set t)"
  by (induction t) auto

lemma vals_push_back: "vals (push_back k v t) \<subseteq> insert v (vals t)"
proof -
  have "set (tbl_at t k) \<subseteq> vals t"
  proof (cases "map_of t k")
    case None
    then show ?thesis by (simp add: tbl_at_def)
  next
    case (Some xs)
    then have "(k, xs) \<in> set t" by (rule map_of_SomeD)
    with Some show ?thesis by (force simp: tbl_at_def vals_def)
  qed
  then show ?thesis
    using set_update_subset [of k "tbl_at t k @ [v]" t]
    by (fastforce simp: push_back_def vals_def)
qed

lemma distinct_push_back: "distinct (map fst t) \<Longrightarrow> distinct (map fst (push_back k v t))"
  by (simp add: push_back_def distinct_update)

lemma nonempty_entries_update:
  "nonempty_entries t \<Longrightarrow> v \<noteq> [] \<Longrightarrow> nonempty_entries (AList.update k v t)"
  by (auto simp: nonempty_entries_def update_conv')

lemma nonempty_push_back: "nonempty_entries t \<Longrightarrow> nonempty_entries (push_back k v t)"
  by (simp add: push_back_def nonempty_entries_update)

lemma nonempty_erase: "nonempty_entries t \<Longrightarrow> nonempty_entries (erase k t)"
  by (auto simp: nonempty_entries_def erase_def delete_conv' split: if_splits)

lemma nonempty_fold_push_back:
  "nonempty_entries t \<Longrightarrow> nonempty_entries (fold (\<lambda>x. push_back k v) xs t)"
  by (induction xs arbitrary: t) (auto simp: nonempty_push_back)

subsection \<open>The order of the final iteration\<close>

text \<open>An iteration enumerates the entries of the table; the order of insertion is the
  iteration for the rank \<open>insertion_order\<close>.\<close>

lemma set_iteration [simp]: "set (iteration rank t) = set t"
  by (simp add: iteration_def)

lemma iteration_Nil [simp]: "iteration rank [] = []"
  by (simp add: iteration_def)

lemma vals_iteration [simp]: "vals (iteration rank t) = vals t"
  by (simp add: vals_def)

lemma keys_iteration [simp]: "keys (iteration rank t) = keys t"
  by (simp add: keys_def)

lemma distinct_iteration [simp]:
  "distinct (map fst (iteration rank t)) = distinct (map fst t)"
  by (simp add: distinct_map iteration_def)

lemma map_of_iteration:
  "distinct (map fst t) \<Longrightarrow> map_of (iteration rank t) = map_of t"
  by (rule map_of_inject_set [THEN iffD2]) simp_all

lemma iteration_insertion_order: "iteration insertion_order t = t"
proof -
  have "sort_key (\<lambda>kv. 0::nat) t = t"
    by (induction t) (simp_all add: insort_is_Cons)
  then show ?thesis
    by (simp add: iteration_def insertion_order_def)
qed

text \<open>Every enumeration of the entries of a table with distinct keys is the iteration
  for some rank.\<close>

lemma position_less: "k \<in> set ks \<Longrightarrow> position k ks < length ks"
  by (induction ks) auto

lemma map_position: "distinct ks \<Longrightarrow> map (\<lambda>k. position k ks) ks = [0..<length ks]"
proof (induction ks)
  case Nil
  then show ?case by simp
next
  case (Cons x xs)
  from Cons.prems have "map (\<lambda>k. position k (x # xs)) xs = map (\<lambda>k. Suc (position k xs)) xs"
    by (intro map_cong) auto
  also have "\<dots> = map Suc (map (\<lambda>k. position k xs) xs)"
    by simp
  also have "\<dots> = map Suc [0..<length xs]"
    using Cons by simp
  finally show ?case
    by (simp add: map_Suc_upt upt_conv_Cons del: upt_Suc)
qed

lemma iteration_any_order:
  fixes t t' :: "'v table"
  assumes "distinct (map fst t)" and "distinct t'" and "set t' = set t"
  shows "\<exists>rank. iteration rank t = t'"
proof -
  let ?ks = "map fst t'"
  let ?f = "\<lambda>kv :: nat \<times> 'v list. position (fst kv) ?ks"
  from assms(1) have it: "inj_on fst (set t)" and dt: "distinct t"
    by (simp_all add: distinct_map)
  with assms(2,3) have dk: "distinct ?ks"
    by (simp add: distinct_map)
  have m: "map ?f t' = [0..<length t']"
    using map_position [OF dk] by (simp add: comp_def)
  then have "distinct (map ?f t')"
    by simp
  then have inj: "inj_on ?f (set t)"
    using assms(3) by (simp add: distinct_map)
  have "map ?f (sort_key ?f t) = map ?f t'"
  proof (rule sorted_distinct_set_unique)
    show "sorted (map ?f (sort_key ?f t))" by simp
    show "distinct (map ?f (sort_key ?f t))" using dt inj by (simp add: distinct_map)
    show "sorted (map ?f t')" unfolding m by simp
    show "distinct (map ?f t')" unfolding m by simp
    show "set (map ?f (sort_key ?f t)) = set (map ?f t')" using assms(3) by simp
  qed
  then have "sort_key ?f t = t'"
    using inj assms(3) by (simp add: inj_on_map_eq_map)
  then have "iteration (\<lambda>k. position k ?ks) t = t'"
    by (simp add: iteration_def)
  then show ?thesis by blast
qed

text \<open>
  What the loop of lines 84 to 90 does, in every order: it leaves the scope of a node
  that is bound to no argument as it is, and it gives a parameter the scope of the
  argument it is bound to, when that argument is the only one the parameter is bound to
  and is not itself bound to an argument.
\<close>

lemma map_of_fold_update_other:
  "k \<notin> set vs \<Longrightarrow> map_of (fold (\<lambda>v m. AList.update v (tbl_at m a) m) vs m) k = map_of m k"
  by (induction vs arbitrary: m) (auto simp: update_conv')

lemma map_of_fold_update_bound:
  "a \<notin> set vs \<Longrightarrow> v \<in> set vs \<Longrightarrow>
   map_of (fold (\<lambda>v m. AList.update v (tbl_at m a) m) vs m) v = Some (tbl_at m a)"
proof (induction vs arbitrary: m)
  case Nil
  then show ?case by simp
next
  case (Cons x xs)
  let ?m1 = "AList.update x (tbl_at m a) m"
  from Cons.prems have a: "a \<noteq> x" "a \<notin> set xs"
    by auto
  then have t: "tbl_at ?m1 a = tbl_at m a"
    by (simp add: tbl_at_def update_conv')
  show ?case
  proof (cases "v \<in> set xs")
    case True
    from Cons.IH [OF a(2) True, of ?m1] t show ?thesis by simp
  next
    case False
    with Cons.prems have "v = x" by simp
    with False show ?thesis
      by (simp add: map_of_fold_update_other update_conv')
  qed
qed

lemma add_vars_other:
  "k \<notin> vals avs \<Longrightarrow> map_of (add_vars avs m) k = map_of m k"
proof (induction avs arbitrary: m)
  case Nil
  then show ?case by simp
next
  case (Cons av avs)
  obtain a vs where av: "av = (a, vs)" by (cases av)
  from Cons.prems av have "k \<notin> set vs" "k \<notin> vals avs"
    by (auto simp: vals_def)
  then show ?case
    by (simp add: av Cons.IH map_of_fold_update_other)
qed

lemma add_vars_bound:
  assumes "distinct (map fst avs)" and "(a, vs) \<in> set avs" and "v \<in> set vs"
    and "a \<notin> vals avs" and "\<forall>(a', vs')\<in>set avs. v \<in> set vs' \<longrightarrow> a' = a"
    and "map_of m a = Some s"
  shows "map_of (add_vars avs m) v = Some s"
  using assms
proof (induction avs arbitrary: m)
  case Nil
  then show ?case by simp
next
  case (Cons av avs)
  obtain a0 vs0 where av: "av = (a0, vs0)" by (cases av)
  let ?m1 = "if tbl_count m a0 then fold (\<lambda>v m. AList.update v (tbl_at m a0) m) vs0 m else m"
  from Cons.prems(4) av have n0: "a \<notin> set vs0" and n: "a \<notin> vals avs"
    by (auto simp: vals_def)
  show ?case
  proof (cases "a0 = a")
    case True
    with Cons.prems(1,2) av have vs0: "vs0 = vs" and k: "a \<notin> fst ` set avs"
      by force+
    have "v \<notin> vals avs"
    proof
      assume "v \<in> vals avs"
      then obtain a' vs' where "(a', vs') \<in> set avs" "v \<in> set vs'"
        by (auto simp: vals_def)
      with Cons.prems(5) k show False
        by force
    qed
    then have "map_of (add_vars avs ?m1) v = map_of ?m1 v"
      by (rule add_vars_other)
    also have "\<dots> = Some (tbl_at m a)"
      using Cons.prems(3,6) n0 True vs0
      by (simp add: tbl_count_def map_of_fold_update_bound)
    also have "tbl_at m a = s"
      using Cons.prems(6) by (simp add: tbl_at_def)
    finally show ?thesis
      by (simp add: av)
  next
    case False
    with Cons.prems(2) av have in_rest: "(a, vs) \<in> set avs"
      by simp
    have m1: "map_of ?m1 a = Some s"
      using Cons.prems(6) n0 by (simp add: map_of_fold_update_other)
    from Cons.prems(1) have d: "distinct (map fst avs)"
      by simp
    from Cons.prems(5) have u: "\<forall>(a', vs')\<in>set avs. v \<in> set vs' \<longrightarrow> a' = a"
      by simp
    from Cons.IH [OF d in_rest Cons.prems(3) n u m1] show ?thesis
      by (simp add: av)
  qed
qed

lemma GetStorageMap_legalized:
  "GetStorageMap rank e =
     (case legalized_state e of Inl err \<Rightarrow> Inl err | Inr st \<Rightarrow> Inr (final_map rank st))"
  by (simp add: GetStorageMap_def legalized_state_def split: sum.splits)

lemma scope_of_unbound:
  assumes "legalized_state e = Inr st" and "k \<notin> vals (args_to_vars st)"
  shows "scope_of (GetStorageMap rank e) k = map_of (filled_map st) k"
  using assms by (simp add: GetStorageMap_legalized scope_of_def final_map_def add_vars_other)

subsection \<open>Scenario A\<close>

text \<open>
  Claim C1, as the code has it. For the graph of a single primitive convolution call with
  \<open>data_layout\<close> \<open>NCHW4c\<close>, \<open>kernel_layout\<close> \<open>OIHW4o\<close>, result shape \<open>[1,4,8,8,4]\<close>, a
  constrained placement and \<open>texture_spatial_limit\<close> 16384, the capability matcher accepts
  the convolution, and the analysis gives the output of the call the scope
  \<open>global.texture\<close>: the split of the first three dimensions against the fourth has
  the least difference, \<open>\<bar>32 - 8\<bar> = 24\<close>, against \<open>\<bar>4 - 64\<bar> = 60\<close> and
  \<open>\<bar>1 - 256\<bar> = 255\<close>. This holds in whatever order the last loop of
  \<^verbatim>\<open>GetStorageMap\<close> iterates.
\<close>

theorem scenario_A_scope:
  "SupportsTextureStorage (Conv2DAttrs ''NCHW4c'' ''OIHW4o'') \<and>
   Scope [IntImm 1, IntImm 4, IntImm 8, IntImm 8, IntImm 4]
     (VirtualDevice dt i (Some (t\<lparr>texture_spatial_limit := Some 16384\<rparr>)) ms) = Inr ''global.texture'' \<and>
   scope_of (GetStorageMap rank scenario_A) 3 = Some [''global.texture'']"
proof -
  let ?S = "\<lparr>primitive_supports_texture = False,
    storage_scope = [(3, [''global.texture''])],
    consumer_storage_scopes = [(1, [''global.texture'']), (2, [''global.texture''])],
    args_to_vars = [(1, [5]), (2, [6])],
    visit_counter = [0, 3, 7, 6, 5, 2, 1]\<rparr>"
  have s: "legalized_state scenario_A = Inr ?S"
    by code_simp
  have "scope_of (GetStorageMap rank scenario_A) 3 = map_of (filled_map ?S) 3"
    by (rule scope_of_unbound [OF s]) (simp add: vals_def)
  also have "\<dots> = Some [''global.texture'']"
    by code_simp
  finally show ?thesis
    by (simp add: Scope_def fit_def int32_def mul32_def sub32_def diffs_assign_def)
qed

theorem scenario_A_scope_witness:
  "Scope [IntImm 1, IntImm 4, IntImm 8, IntImm 8, IntImm 4] adreno_vd = Inr ''global.texture'' \<and>
   scope_of (GetStorageMap insertion_order scenario_A) 3 = Some [''global.texture''] \<and>
   scope_of (GetStorageMap address_order scenario_A) 3 = Some [''global.texture'']"
  using scenario_A_scope [of 4 0 adreno "''''" insertion_order]
    scenario_A_scope [of 4 0 adreno "''''" address_order]
  by (simp add: adreno_vd_def adreno_def)

text \<open>Claim C1 as stated does not hold: the scope of the call is not \<open>global.texture-nhwc\<close>.\<close>

theorem scenario_A_counterexample:
  "scope_of (GetStorageMap insertion_order scenario_A) 3 \<noteq> Some [''global.texture-nhwc''] \<and>
   scope_of (GetStorageMap address_order scenario_A) 3 \<noteq> Some [''global.texture-nhwc'']"
  by code_simp

subsection \<open>Demand entries\<close>

lemma HasMixed_consumer_update [simp]:
  "HasMixedStorageOutputs (st\<lparr>consumer_storage_scopes := x\<rparr>) c = HasMixedStorageOutputs st c"
  by (simp add: HasMixedStorageOutputs_def)

lemma storage_consumer_update [simp]:
  "tbl_count (storage_scope (st\<lparr>consumer_storage_scopes := x\<rparr>)) c = tbl_count (storage_scope st) c"
  by simp

lemma add_consumer_scopes_global:
  "\<not> tbl_count (storage_scope st) c \<Longrightarrow>
   add_consumer_scopes c as st =
     Inr (st\<lparr>consumer_storage_scopes :=
       fold (\<lambda>a. push_back (addr a) ''global'') as (consumer_storage_scopes st)\<rparr>)"
  by (induction as arbitrary: st) simp_all

lemma add_consumer_scopes_texture:
  "tbl_count (storage_scope st) c \<Longrightarrow> HasMixedStorageOutputs st c = Inr False \<Longrightarrow>
   add_consumer_scopes c as st =
     Inr (st\<lparr>consumer_storage_scopes :=
       fold (\<lambda>a. push_back (addr a) ''global.texture'') as (consumer_storage_scopes st)\<rparr>)"
  by (induction as arbitrary: st) simp_all

lemma add_consumer_scopes_mixed:
  "tbl_count (storage_scope st) c \<Longrightarrow> HasMixedStorageOutputs st c = Inr True \<Longrightarrow> as \<noteq> [] \<Longrightarrow>
   add_consumer_scopes c as st = Inl (ICHECK mixed_msg)"
  by (cases as) simp_all

lemma add_consumer_scopes_demand:
  assumes "add_consumer_scopes c as st = Inr st'"
  shows "tbl_at (consumer_storage_scopes st') k =
      tbl_at (consumer_storage_scopes st) k @
      replicate (count_list (map addr as) k)
        (if tbl_count (storage_scope st) c then ''global.texture'' else ''global'')"
    and "storage_scope st' = storage_scope st"
proof -
  have "tbl_at (consumer_storage_scopes st') k =
      tbl_at (consumer_storage_scopes st) k @
      replicate (count_list (map addr as) k)
        (if tbl_count (storage_scope st) c then ''global.texture'' else ''global'') \<and>
      storage_scope st' = storage_scope st"
  proof (cases "tbl_count (storage_scope st) c")
    case False
    with assms show ?thesis
      by (auto simp: add_consumer_scopes_global tbl_at_fold_push_back)
  next
    case True
    show ?thesis
    proof (cases as)
      case Nil
      with assms show ?thesis by simp
    next
      case (Cons a as')
      with assms True have "HasMixedStorageOutputs st c = Inr False"
        by (auto split: sum.splits if_splits)
      with assms True show ?thesis
        by (auto simp: add_consumer_scopes_texture tbl_at_fold_push_back)
    qed
  qed
  then show "tbl_at (consumer_storage_scopes st') k =
      tbl_at (consumer_storage_scopes st) k @
      replicate (count_list (map addr as) k)
        (if tbl_count (storage_scope st) c then ''global.texture'' else ''global'')"
    and "storage_scope st' = storage_scope st"
    by simp_all
qed

lemma propose_scope_consumer:
  "propose_scope call st = Inr st' \<Longrightarrow> consumer_storage_scopes st' = consumer_storage_scopes st"
  by (auto simp: propose_scope_def split: if_splits sum.splits rtype.splits)

lemma propose_scope_count:
  assumes "propose_scope call st = Inr st'" and "\<not> tbl_count (storage_scope st) (addr call)"
  shows "tbl_count (storage_scope st') (addr call) \<longleftrightarrow>
     primitive_supports_texture st \<and>
     (case checked_type call of TensorType shape \<Rightarrow> True | TupleType fs \<Rightarrow> fs \<noteq> [] | OtherType \<Rightarrow> False)"
  using assms
  by (auto simp: propose_scope_def tbl_count_keys keys_push_back keys_fold_push_back
      split: if_splits sum.splits rtype.splits)

text \<open>What the collector does at a call of a primitive function, step by step.\<close>

lemma VisitNode_primitive_call:
  assumes "VisitNode (Call a (Function fa ps b True) as at ty vd) st = Inr st'"
  shows "\<exists>st1 st2 st3 st4.
    Visit (Function fa ps b True) (st\<lparr>primitive_supports_texture := False\<rparr>) = Inr st1 \<and>
    propose_scope (Call a (Function fa ps b True) as at ty vd) st1 = Inr st2 \<and>
    add_consumer_scopes a as st2 = Inr st3 \<and>
    VisitArgs as (st3\<lparr>primitive_supports_texture := SupportsTextureStorage at\<rparr>) = Inr st4 \<and>
    st' = retract as st4"
  using assms by (auto split: sum.splits)

lemma VisitNode_operator_call:
  assumes "VisitNode (Call a (Op oa n) as at ty vd) st = Inr st'"
  shows "\<exists>st4.
    VisitArgs as (st\<lparr>primitive_supports_texture := SupportsTextureStorage at\<rparr>) = Inr st4 \<and>
    st' = retract as st4"
  using assms by (auto split: sum.splits)

text \<open>
  Claim C2, as the code has it. When the collector has gone through lines 118 to 149 for
  a call of a primitive function, every argument has got one demand entry for each of
  its occurrences among the arguments, and the entry is \<open>global.texture\<close> exactly when
  the call has an entry in the candidate-scope table, \<open>global\<close> otherwise. A call with no
  entry before gets one exactly when its callee was found to support textures and its
  type is a tensor or a tuple with at least one field, whatever scope the fit evaluator
  returned for it, \<open>global\<close> included.
\<close>

theorem demand_entry_rule:
  assumes "propose_scope call st1 = Inr st2"
    and "add_consumer_scopes (addr call) (args call) st2 = Inr st3"
  shows "tbl_at (consumer_storage_scopes st3) k =
      tbl_at (consumer_storage_scopes st1) k @
      replicate (count_list (map addr (args call)) k)
        (if tbl_count (storage_scope st3) (addr call) then ''global.texture'' else ''global'') \<and>
    (\<not> tbl_count (storage_scope st1) (addr call) \<longrightarrow>
      (tbl_count (storage_scope st3) (addr call) \<longleftrightarrow>
        primitive_supports_texture st1 \<and>
        (case checked_type call of TensorType shape \<Rightarrow> True | TupleType fs \<Rightarrow> fs \<noteq> []
         | OtherType \<Rightarrow> False)))"
  using add_consumer_scopes_demand [OF assms(2)] propose_scope_consumer [OF assms(1)]
    propose_scope_count [OF assms(1)]
  by simp

lemma fused_before_eq: "Visit fused_prim init_info = Inr fused_before"
  by code_simp

theorem demand_entry_rule_witness:
  "demand_of
     (case propose_scope fused_call fused_before of
        Inl err \<Rightarrow> Inl err
      | Inr st2 \<Rightarrow> add_consumer_scopes 3 (args fused_call) st2) 1 = Some [''global.texture'']"
proof -
  let ?S2 = "\<lparr>primitive_supports_texture = True, storage_scope = [(3, [''global''])],
    consumer_storage_scopes = [], args_to_vars = [(1, [5]), (2, [6]), (13, [14])],
    visit_counter = [9, 11, 14, 7, 6, 5]\<rparr>"
  let ?S3 = "\<lparr>primitive_supports_texture = True, storage_scope = [(3, [''global''])],
    consumer_storage_scopes =
      [(1, [''global.texture'']), (2, [''global.texture'']), (13, [''global.texture''])],
    args_to_vars = [(1, [5]), (2, [6]), (13, [14])], visit_counter = [9, 11, 14, 7, 6, 5]\<rparr>"
  have h1: "propose_scope fused_call fused_before = Inr ?S2"
    by code_simp
  have h2: "add_consumer_scopes (addr fused_call) (args fused_call) ?S2 = Inr ?S3"
    by code_simp
  have a: "addr fused_call = 3"
    by (simp add: fused_call_def)
  show ?thesis
    using demand_entry_rule [OF h1 h2, of 1] h1 h2
    by (simp add: a demand_of_def)
qed

text \<open>
  Claim C2 as stated does not hold: in the fused graph the output of the call is given
  the scope \<open>global\<close>, which is no texture scope, and the demand entry of its argument
  \<open>data\<close> is \<open>global.texture\<close>.
\<close>

theorem demand_entry_counterexample:
  "candidate_of (VisitExpr fused_graph init_info) 3 = Some [''global''] \<and>
   demand_of (VisitExpr fused_graph init_info) 1 = Some [''global.texture'']"
  by code_simp

subsection \<open>Legalization\<close>

lemma HasMixed_uniform:
  assumes "map_of (storage_scope st) k = Some xs" and "xs \<noteq> []"
  shows "HasMixedStorageOutputs st k = Inr (\<not> uniform xs)"
proof -
  obtain r rest where xs: "xs = r # rest"
    using assms(2) by (cases xs) auto
  have "list_ex (\<lambda>s. s \<noteq> r) (r # rest) \<longleftrightarrow> \<not> uniform (r # rest)"
    by (auto simp: uniform_def list_ex_iff)
  then show ?thesis
    using assms(1) by (simp add: HasMixedStorageOutputs_def xs)
qed

lemma map_const_replicate: "map (\<lambda>x. c) xs = replicate (length xs) c"
  by (induction xs) simp_all

lemma legalized_Cons_other: "k \<noteq> p \<Longrightarrow> legalized ((p, d) # kvs) k = legalized kvs k"
  by (simp add: legalized_def fun_eq_iff)

lemma legalized_fresh: "map_of cs k = None \<Longrightarrow> legalized cs k xs = xs"
  by (simp add: legalized_def)

lemma legalize_loop_ok:
  assumes "distinct (map fst kvs)"
    and "nonempty_entries (storage_scope st)"
    and "\<forall>k xs. k \<in> fst ` set kvs \<longrightarrow> map_of (storage_scope st) k = Some xs \<longrightarrow> uniform xs"
  shows "\<exists>st'. legalize_loop kvs st = Inr st' \<and> st' = st\<lparr>storage_scope := storage_scope st'\<rparr> \<and>
    (\<forall>k. map_of (storage_scope st') k = map_option (legalized kvs k) (map_of (storage_scope st) k))"
  using assms
proof (induction kvs arbitrary: st)
  case Nil
  show ?case
    by (simp add: legalized_def option.map_ident)
next
  case (Cons kv kvs)
  obtain p d where kv: "kv = (p, d)" by (cases kv)
  from Cons.prems(1) kv have fresh: "map_of kvs p = None" and dist: "distinct (map fst kvs)"
    by (auto simp: map_of_eq_None_iff)
  let ?legal = "GetConsumerScope d"
  show ?case
  proof (cases "map_of (storage_scope st) p")
    case None
    then have step: "legalize_loop (kv # kvs) st = legalize_loop kvs st"
      by (simp add: kv tbl_count_def)
    from Cons.IH [OF dist Cons.prems(2)] Cons.prems(3)
    obtain st' where st': "legalize_loop kvs st = Inr st'"
      "st' = st\<lparr>storage_scope := storage_scope st'\<rparr>"
      "\<forall>k. map_of (storage_scope st') k = map_option (legalized kvs k) (map_of (storage_scope st) k)"
      by auto
    have "map_of (storage_scope st') k =
        map_option (legalized (kv # kvs) k) (map_of (storage_scope st) k)" for k
      using st'(3) None by (cases "k = p") (auto simp: kv legalized_Cons_other)
    with st' step show ?thesis by auto
  next
    case (Some xs)
    with Cons.prems(2) have ne: "xs \<noteq> []"
      by (auto simp: nonempty_entries_def)
    from Cons.prems(3) Some kv have "uniform xs" by auto
    then have mixed: "HasMixedStorageOutputs st p = Inr False"
      using HasMixed_uniform [OF Some ne] by simp
    obtain x rest where xs: "xs = x # rest"
      using ne by (cases xs) auto
    let ?st1 = "if str_find x ?legal = None
      then st\<lparr>storage_scope := AList.update p (map (\<lambda>_. ?legal) xs) (storage_scope st)\<rparr>
      else st"
    have step: "legalize_loop (kv # kvs) st = legalize_loop kvs ?st1"
      using Some mixed by (simp add: kv tbl_count_def tbl_at_def xs Let_def)
    have ne1: "nonempty_entries (storage_scope ?st1)"
      using Cons.prems(2) ne by (auto intro: nonempty_entries_update)
    have other: "map_of (storage_scope ?st1) k = map_of (storage_scope st) k" if "k \<noteq> p" for k
      using that by (simp add: update_conv')
    have uni1: "\<forall>k xs. k \<in> fst ` set kvs \<longrightarrow> map_of (storage_scope ?st1) k = Some xs \<longrightarrow> uniform xs"
    proof (intro allI impI)
      fix k ys
      assume k: "k \<in> fst ` set kvs" and ys: "map_of (storage_scope ?st1) k = Some ys"
      from k fresh have "k \<noteq> p"
        by (auto simp: map_of_eq_None_iff)
      with ys other have "map_of (storage_scope st) k = Some ys" by simp
      with Cons.prems(3) k show "uniform ys" by (auto simp: kv)
    qed
    from Cons.IH [OF dist ne1 uni1]
    obtain st' where st': "legalize_loop kvs ?st1 = Inr st'"
      "st' = ?st1\<lparr>storage_scope := storage_scope st'\<rparr>"
      "\<forall>k. map_of (storage_scope st') k = map_option (legalized kvs k) (map_of (storage_scope ?st1) k)"
      by blast
    have frame: "st' = st\<lparr>storage_scope := storage_scope st'\<rparr>"
      using st'(2) by (auto split: if_splits)
    have "map_of (storage_scope st') k =
        map_option (legalized (kv # kvs) k) (map_of (storage_scope st) k)" for k
    proof (cases "k = p")
      case True
      have "map_of (storage_scope ?st1) p = Some (legalized (kv # kvs) p xs)"
        using Some by (simp add: kv legalized_def xs update_conv' map_const_replicate)
      then show ?thesis
        using st'(3) Some True fresh by (simp add: legalized_fresh)
    next
      case False
      then show ?thesis
        using st'(3) other by (simp add: kv legalized_Cons_other)
    qed
    with st'(1) frame step show ?thesis by auto
  qed
qed

lemma legalize_loop_mixed:
  assumes "distinct (map fst kvs)"
    and "nonempty_entries (storage_scope st)"
    and "k \<in> fst ` set kvs" and "map_of (storage_scope st) k = Some xs" and "\<not> uniform xs"
  shows "legalize_loop kvs st = Inl (ICHECK mixed_msg)"
  using assms
proof (induction kvs arbitrary: st)
  case Nil
  then show ?case by simp
next
  case (Cons kv kvs)
  obtain p d where kv: "kv = (p, d)" by (cases kv)
  from Cons.prems(1) kv have fresh: "p \<notin> fst ` set kvs" and dist: "distinct (map fst kvs)"
    by auto
  let ?legal = "GetConsumerScope d"
  show ?case
  proof (cases "map_of (storage_scope st) p")
    case None
    then have step: "legalize_loop (kv # kvs) st = legalize_loop kvs st"
      by (simp add: kv tbl_count_def)
    from None Cons.prems(3,4) have "k \<in> fst ` set kvs"
      by (auto simp: kv)
    from Cons.IH [OF dist Cons.prems(2) this Cons.prems(4,5)] step show ?thesis by simp
  next
    case (Some ys)
    with Cons.prems(2) have ne: "ys \<noteq> []"
      by (auto simp: nonempty_entries_def)
    have mixed: "HasMixedStorageOutputs st p = Inr (\<not> uniform ys)"
      by (rule HasMixed_uniform [OF Some ne])
    show ?thesis
    proof (cases "uniform ys")
      case False
      with mixed Some show ?thesis
        by (simp add: kv tbl_count_def)
    next
      case True
      with Some Cons.prems(4,5) have kp: "k \<noteq> p" by auto
      with Cons.prems(3) have kin: "k \<in> fst ` set kvs" by (auto simp: kv)
      obtain x rest where ys: "ys = x # rest"
        using ne by (cases ys) auto
      let ?st1 = "if str_find x ?legal = None
        then st\<lparr>storage_scope := AList.update p (map (\<lambda>_. ?legal) ys) (storage_scope st)\<rparr>
        else st"
      have step: "legalize_loop (kv # kvs) st = legalize_loop kvs ?st1"
        using Some mixed True by (simp add: kv tbl_count_def tbl_at_def ys Let_def)
      have ne1: "nonempty_entries (storage_scope ?st1)"
        using Cons.prems(2) ne by (auto intro: nonempty_entries_update)
      have k1: "map_of (storage_scope ?st1) k = Some xs"
        using kp Cons.prems(4) by (simp add: update_conv')
      from Cons.IH [OF dist ne1 kin k1 Cons.prems(5)] step show ?thesis by simp
    qed
  qed
qed

lemma legalize_loop_frame:
  "legalize_loop kvs st = Inr st' \<Longrightarrow>
   keys (storage_scope st') = keys (storage_scope st) \<and>
   consumer_storage_scopes st' = consumer_storage_scopes st \<and>
   args_to_vars st' = args_to_vars st"
proof (induction kvs arbitrary: st)
  case Nil
  then show ?case by simp
next
  case (Cons kv kvs)
  obtain p d where kv: "kv = (p, d)" by (cases kv)
  show ?case
  proof (cases "tbl_count (storage_scope st) p")
    case False
    with Cons.prems have "legalize_loop kvs st = Inr st'"
      by (simp add: kv)
    then show ?thesis by (rule Cons.IH)
  next
    case True
    then have p: "insert p (keys (storage_scope st)) = keys (storage_scope st)"
      by (auto simp: tbl_count_keys)
    let ?legal = "GetConsumerScope d"
    from Cons.prems True obtain x rest where at: "tbl_at (storage_scope st) p = x # rest"
      by (simp add: kv Let_def split: sum.splits if_splits list.splits)
    let ?st1 = "if str_find x ?legal = None
        then st\<lparr>storage_scope := AList.update p (map (\<lambda>_. ?legal) (x # rest)) (storage_scope st)\<rparr>
        else st"
    from Cons.prems True at have l: "legalize_loop kvs ?st1 = Inr st'"
      by (cases "str_find x ?legal") (simp_all add: kv Let_def split: sum.splits if_splits)
    have "keys (storage_scope ?st1) = keys (storage_scope st)"
      "consumer_storage_scopes ?st1 = consumer_storage_scopes st"
      "args_to_vars ?st1 = args_to_vars st"
      using p by (simp_all add: keys_update)
    with Cons.IH [OF l] show ?thesis by simp
  qed
qed

text \<open>
  Claim C4. In a state whose demand table has distinct keys and whose candidate lists
  are not empty (every state the collector reaches is such a state): if some producer
  with recorded demand has a candidate list with two different entries, legalization
  ends in the failed assertion on mixed output storage scopes; otherwise it succeeds,
  and changes nothing but candidate lists: the list of a producer with recorded demand
  whose first entry does not contain the unified demand as a substring has every entry
  overwritten with the unified demand, every other list is kept, and a producer with no
  candidate list still has none.
\<close>

theorem legalize_rule:
  assumes "distinct (map fst (consumer_storage_scopes st))"
    and "nonempty_entries (storage_scope st)"
  shows "((\<exists>k d xs. map_of (consumer_storage_scopes st) k = Some d \<and>
            map_of (storage_scope st) k = Some xs \<and> \<not> uniform xs) \<longrightarrow>
          LegalizeProducerStorage st =
            Inl (ICHECK ''Mixed output storage scopes are not currently supported'')) \<and>
         (\<not> (\<exists>k d xs. map_of (consumer_storage_scopes st) k = Some d \<and>
            map_of (storage_scope st) k = Some xs \<and> \<not> uniform xs) \<longrightarrow>
          (\<exists>st'. LegalizeProducerStorage st = Inr st' \<and>
             st' = st\<lparr>storage_scope := storage_scope st'\<rparr> \<and>
             (\<forall>k. map_of (storage_scope st') k =
                (case map_of (storage_scope st) k of
                   None \<Rightarrow> None
                 | Some xs \<Rightarrow>
                     (case map_of (consumer_storage_scopes st) k of
                        None \<Rightarrow> Some xs
                      | Some d \<Rightarrow>
                          if str_find (hd xs) (GetConsumerScope d) = None
                          then Some (replicate (length xs) (GetConsumerScope d))
                          else Some xs)))))"
proof (intro conjI impI)
  assume "\<exists>k d xs. map_of (consumer_storage_scopes st) k = Some d \<and>
            map_of (storage_scope st) k = Some xs \<and> \<not> uniform xs"
  then obtain k d xs where k: "map_of (consumer_storage_scopes st) k = Some d"
    "map_of (storage_scope st) k = Some xs" "\<not> uniform xs"
    by blast
  from k(1) have "k \<in> fst ` set (consumer_storage_scopes st)"
    by (meson domI domIff map_of_eq_None_iff)
  from legalize_loop_mixed [OF assms this k(2,3)]
  show "LegalizeProducerStorage st =
      Inl (ICHECK ''Mixed output storage scopes are not currently supported'')"
    by (simp add: LegalizeProducerStorage_def mixed_msg_def)
next
  assume none: "\<not> (\<exists>k d xs. map_of (consumer_storage_scopes st) k = Some d \<and>
            map_of (storage_scope st) k = Some xs \<and> \<not> uniform xs)"
  have "\<forall>k xs. k \<in> fst ` set (consumer_storage_scopes st) \<longrightarrow>
      map_of (storage_scope st) k = Some xs \<longrightarrow> uniform xs"
  proof (intro allI impI)
    fix k xs
    assume "k \<in> fst ` set (consumer_storage_scopes st)" "map_of (storage_scope st) k = Some xs"
    moreover from this(1) obtain d where "map_of (consumer_storage_scopes st) k = Some d"
      by (metis map_of_eq_None_iff not_Some_eq)
    ultimately show "uniform xs" using none by blast
  qed
  from legalize_loop_ok [OF assms this]
  obtain st' where st': "legalize_loop (consumer_storage_scopes st) st = Inr st'"
    "st' = st\<lparr>storage_scope := storage_scope st'\<rparr>"
    "\<forall>k. map_of (storage_scope st') k =
       map_option (legalized (consumer_storage_scopes st) k) (map_of (storage_scope st) k)"
    by blast
  have "map_of (storage_scope st') k =
      (case map_of (storage_scope st) k of
         None \<Rightarrow> None
       | Some xs \<Rightarrow>
           (case map_of (consumer_storage_scopes st) k of
              None \<Rightarrow> Some xs
            | Some d \<Rightarrow>
                if str_find (hd xs) (GetConsumerScope d) = None
                then Some (replicate (length xs) (GetConsumerScope d))
                else Some xs))" for k
    using st'(3) by (auto simp: legalized_def split: option.splits)
  with st'(1,2) show "\<exists>st'. LegalizeProducerStorage st = Inr st' \<and>
             st' = st\<lparr>storage_scope := storage_scope st'\<rparr> \<and>
             (\<forall>k. map_of (storage_scope st') k =
                (case map_of (storage_scope st) k of
                   None \<Rightarrow> None
                 | Some xs \<Rightarrow>
                     (case map_of (consumer_storage_scopes st) k of
                        None \<Rightarrow> Some xs
                      | Some d \<Rightarrow>
                          if str_find (hd xs) (GetConsumerScope d) = None
                          then Some (replicate (length xs) (GetConsumerScope d))
                          else Some xs)))"
    unfolding LegalizeProducerStorage_def by blast
qed

theorem legalize_rule_witness:
  "LegalizeProducerStorage mixed_state =
     Inl (ICHECK ''Mixed output storage scopes are not currently supported'') \<and>
   candidate_of (LegalizeProducerStorage promoted_state) 1 = Some [''global.texture''] \<and>
   candidate_of (LegalizeProducerStorage promoted_state) 2 = Some [''global'']"
proof -
  have m: "\<exists>k d xs. map_of (consumer_storage_scopes mixed_state) k = Some d \<and>
      map_of (storage_scope mixed_state) k = Some xs \<and> \<not> uniform xs"
    by (intro exI [of _ 1] exI [of _ "[''global.texture'']"]
        exI [of _ "[''global.texture'', ''global'']"])
      (simp add: mixed_state_def init_info_def uniform_def)
  have p: "\<not> (\<exists>k d xs. map_of (consumer_storage_scopes promoted_state) k = Some d \<and>
      map_of (storage_scope promoted_state) k = Some xs \<and> \<not> uniform xs)"
    by (auto simp: promoted_state_def init_info_def uniform_def split: if_splits)
  have wf: "distinct (map fst (consumer_storage_scopes mixed_state))"
    "nonempty_entries (storage_scope mixed_state)"
    "distinct (map fst (consumer_storage_scopes promoted_state))"
    "nonempty_entries (storage_scope promoted_state)"
    by (auto simp: mixed_state_def promoted_state_def init_info_def nonempty_entries_def
        split: if_splits)
  have s: "str_find ''global'' (GetConsumerScope [''global.texture'']) = None"
    by code_simp
  have g: "GetConsumerScope [''global.texture''] = ''global.texture''"
    by code_simp
  from legalize_rule [OF wf(1,2)] m
  have 1: "LegalizeProducerStorage mixed_state =
     Inl (ICHECK ''Mixed output storage scopes are not currently supported'')"
    by blast
  from legalize_rule [OF wf(3,4)] p
  obtain st' where l: "LegalizeProducerStorage promoted_state = Inr st'"
    and e: "\<forall>k. map_of (storage_scope st') k =
      (case map_of (storage_scope promoted_state) k of
         None \<Rightarrow> None
       | Some xs \<Rightarrow>
           (case map_of (consumer_storage_scopes promoted_state) k of
              None \<Rightarrow> Some xs
            | Some d \<Rightarrow>
                if str_find (hd xs) (GetConsumerScope d) = None
                then Some (replicate (length xs) (GetConsumerScope d))
                else Some xs))"
    by blast
  from e [rule_format, of 1] e [rule_format, of 2]
  have "map_of (storage_scope st') 1 = Some [''global.texture'']"
    "map_of (storage_scope st') 2 = Some [''global'']"
    by (simp_all add: promoted_state_def init_info_def s g)
  with 1 l show ?thesis
    by (simp add: candidate_of_def)
qed

subsection \<open>Completion\<close>

lemma CanConsumeTextures_iff: "CanConsumeTextures cs \<longleftrightarrow> (\<exists>c\<in>set cs. prefix texture_tag c)"
  by (induction cs) (auto simp: str_find_zero_iff)

lemma fill_inputs_keeps:
  "map_of m k = Some v \<Longrightarrow> map_of (fill_inputs cs m) k = Some v"
proof (induction cs arbitrary: m)
  case Nil
  then show ?case by simp
next
  case (Cons c cs)
  obtain k' d' where c: "c = (k', d')" by (cases c)
  have "map_of (if CanConsumeTextures d' \<and> map_of m k' = None
      then AList.update k' [''global''] m else m) k = Some v"
    using Cons.prems by (auto simp: update_conv')
  then show ?case
    unfolding c fill_inputs.simps by (rule Cons.IH)
qed

lemma fill_inputs_adds:
  "map_of m k = None \<Longrightarrow> map_of cs k = Some d \<Longrightarrow> CanConsumeTextures d \<Longrightarrow>
   map_of (fill_inputs cs m) k = Some [''global'']"
proof (induction cs arbitrary: m)
  case Nil
  then show ?case by simp
next
  case (Cons c cs)
  obtain k' d' where c: "c = (k', d')" by (cases c)
  show ?case
  proof (cases "k' = k")
    case True
    with Cons.prems c show ?thesis
      by (simp add: fill_inputs_keeps update_conv')
  next
    case False
    with Cons.prems c show ?thesis
      by (auto simp: update_conv' intro!: Cons.IH)
  qed
qed




text \<open>
  Claim C6, as the code has it. In the state after legalization, a node that has recorded
  demand with at least one entry starting with the texture tag, and that has no candidate
  scope, has exactly the one scope \<open>global\<close> in the map after lines 72 to 80; it has that
  scope in the map returned, in whatever order the last loop iterates, unless it is a
  parameter that the binding table binds to an argument.
\<close>

theorem fill_inputs_rule:
  assumes "map_of (consumer_storage_scopes st) k = Some d"
    and "\<exists>c\<in>set d. prefix ''global.texture'' c"
    and "map_of (storage_scope st) k = None"
  shows "map_of (filled_map st) k = Some [''global''] \<and>
    (k \<notin> vals (args_to_vars st) \<longrightarrow> map_of (final_map rank st) k = Some [''global''])"
proof -
  have "CanConsumeTextures d"
    using assms(2) by (simp add: CanConsumeTextures_iff texture_tag_def)
  then have "map_of (filled_map st) k = Some [''global'']"
    unfolding filled_map_def by (rule fill_inputs_adds [OF assms(3) assms(1)])
  then show ?thesis
    by (simp add: final_map_def add_vars_other)
qed

theorem fill_inputs_rule_witness:
  "scope_of (GetStorageMap insertion_order fused_graph) 13 = Some [''global''] \<and>
   scope_of (GetStorageMap address_order fused_graph) 13 = Some [''global'']"
proof -
  let ?S = "\<lparr>primitive_supports_texture = False,
    storage_scope = [(3, [''global'']), (2, [''global.texture-nhwc''])],
    consumer_storage_scopes =
      [(1, [''global.texture'']), (2, [''global.texture'']), (13, [''global.texture''])],
    args_to_vars = [(1, [5]), (2, [6]), (13, [14])],
    visit_counter = [0, 3, 13, 2, 9, 11, 14, 7, 6, 5, 1]\<rparr>"
  have s: "legalized_state fused_graph = Inr ?S"
    by code_simp
  have g: "GetStorageMap rank fused_graph = Inr (final_map rank ?S)" for rank
    by (simp only: GetStorageMap_legalized s sum.case)
  have "map_of (final_map insertion_order ?S) 13 = Some [''global'']"
    "map_of (final_map address_order ?S) 13 = Some [''global'']"
    using fill_inputs_rule [of ?S 13 "[''global.texture'']" insertion_order]
      fill_inputs_rule [of ?S 13 "[''global.texture'']" address_order]
    by (simp_all add: vals_def)
  then show ?thesis
    by (simp only: scope_of_def g sum.case simp_thms)
qed

text \<open>
  Claim C6 as stated does not hold. In the graph \<open>chain_graph\<close> the parameter \<open>p0\<close> is
  the argument of the call of \<open>h\<close>: after legalization it has the recorded demand
  \<open>global.texture\<close> and no candidate scope, so that lines 72 to 80 give it the scope
  \<open>global\<close>; the last loop then gives it the scope of the argument \<open>input\<close> bound to
  it, \<open>global.texture\<close>, in both orders of the two bindings.
\<close>

theorem overwritten_parameter_counterexample:
  "demand_of (legalized_state chain_graph) 5 = Some [''global.texture''] \<and>
   candidate_of (legalized_state chain_graph) 5 = None \<and>
   scope_of (GetStorageMap insertion_order chain_graph) 5 = Some [''global.texture''] \<and>
   scope_of (GetStorageMap address_order chain_graph) 5 = Some [''global.texture'']"
  by code_simp

text \<open>The scope of the parameter \<open>q0\<close> of \<open>h\<close> in that graph depends on the order of
  the last loop.\<close>

lemma chain_graph_order_dependence:
  "scope_of (GetStorageMap insertion_order chain_graph) 9 = Some [''global''] \<and>
   scope_of (GetStorageMap address_order chain_graph) 9 = Some [''global.texture'']"
  by code_simp

subsection \<open>The pass\<close>

lemma GetStorageMap_Var: "GetStorageMap rank (Var a ty vd) = Inr []"
  by (simp add: GetStorageMap_def init_info_def ApplyConsumerScopeToInputs_def VisitExpr.simps
      LegalizeProducerStorage_def final_map_def filled_map_def)

lemma GetDevices_Var: "GetDevices (Var a ty vd) = Inr []"
  by (simp add: GetDevices_def DevVisitExpr.simps)

text \<open>
  Claim C7. Whenever the collected map is empty the pass returns its input: in
  particular when no analysis is registered under the key of the devices found, and for
  a graph that is a single reference, whether the lookup for the empty device set finds
  nothing or finds the texture analysis.
\<close>

theorem empty_map_returns_input:
  "(CollectStorageInfo reg e = Inr [] \<longrightarrow> AnnotateMemoryScopeExpr reg rewrite e = Inr e) \<and>
   (GetDevices e = Inr ds \<and> reg (ftarget_key ds) = None \<longrightarrow>
      AnnotateMemoryScopeExpr reg rewrite e = Inr e) \<and>
   (reg (ftarget_key []) = None \<or> reg (ftarget_key []) = Some (CollectTextureStorage rank) \<longrightarrow>
      AnnotateMemoryScopeExpr reg rewrite (Var a ty vd) = Inr (Var a ty vd))"
  by (auto simp: AnnotateMemoryScopeExpr_def CollectStorageInfo_def GetDevices_Var
      CollectTextureStorage_def GetStorageMap_Var)

theorem empty_map_returns_input_witness:
  "AnnotateMemoryScopeExpr (\<lambda>name. None) (\<lambda>m e. Inl NullDeref) scenario_A = Inr scenario_A \<and>
   AnnotateMemoryScopeExpr (tvm_registry insertion_order) (\<lambda>m e. Inl NullDeref)
     (Var 1 data_type FullyUnconstrained) = Inr (Var 1 data_type FullyUnconstrained)"
proof -
  have d: "GetDevices scenario_A = Inr [''opencl.adreno'']"
    by code_simp
  have k: "tvm_registry insertion_order (ftarget_key []) = None"
    by (simp add: tvm_registry_def ftarget_key_def)
  show ?thesis
    using empty_map_returns_input [of "\<lambda>name. None" scenario_A "\<lambda>m e. Inl NullDeref"
        "[''opencl.adreno'']" insertion_order 1 data_type FullyUnconstrained]
      empty_map_returns_input [of "tvm_registry insertion_order" scenario_A "\<lambda>m e. Inl NullDeref"
        "[''opencl.adreno'']" insertion_order 1 data_type FullyUnconstrained]
    by (simp add: d k)
qed

subsection \<open>Where demand and scopes can arise\<close>

lemma covered_Call:
  "covered D C P (Call a f as at ty vd) \<longleftrightarrow>
     (is_primitive_call (Call a f as at ty vd) \<longrightarrow> site_ok D C P (Call a f as at ty vd)) \<and>
     covered D C P f \<and> (\<forall>x\<in>set as. covered D C P x)"
  by (auto simp: covered_def primitive_calls_in_def)

lemma covered_Function:
  "covered D C P (Function a ps b prim) \<longleftrightarrow>
     (\<forall>p\<in>set ps. covered D C P p) \<and> covered D C P b"
  by (auto simp: covered_def primitive_calls_in_def)

lemma covered_self: "covered (demand_sites e) (primitive_calls e) (bound_params e) e"
  by (auto simp: covered_def site_ok_def demand_sites_def primitive_calls_def bound_params_def)

lemma inv_flag [simp]:
  "collector_inv D C P (st\<lparr>primitive_supports_texture := x\<rparr>) = collector_inv D C P st"
  "collector_inv D C P (st\<lparr>visit_counter := y\<rparr>) = collector_inv D C P st"
  by (simp_all add: collector_inv_def)

lemma inv_init: "collector_inv D C P init_info"
  by (simp add: collector_inv_def init_info_def keys_def vals_def nonempty_entries_def)

lemma inv_Apply:
  assumes "collector_inv D C P st" and "ApplyConsumerScopeToInputs e st = Inr st'"
  shows "collector_inv D C P st'"
proof (cases "map_of (consumer_storage_scopes st) (addr e)")
  case None
  with assms show ?thesis by (simp add: ApplyConsumerScopeToInputs_def)
next
  case (Some d)
  then have "addr e \<in> keys (consumer_storage_scopes st)"
    by (auto simp: keys_dom)
  with assms(1) have "addr e \<in> D"
    by (auto simp: collector_inv_def)
  with assms Some show ?thesis
    by (auto simp: ApplyConsumerScopeToInputs_def Let_def collector_inv_def keys_push_back
        nonempty_push_back split: if_splits sum.splits prod.splits)
qed

lemma bind_params_bounds:
  "bind_params as ps t = Inr t' \<Longrightarrow>
   keys t' \<subseteq> keys t \<union> addr ` set as \<and> vals t' \<subseteq> vals t \<union> addr ` set ps"
proof (induction as ps t rule: bind_params.induct)
  case (1 as t)
  then show ?case by simp
next
  case (2 p ps t)
  then show ?case by simp
next
  case (3 a as p ps t)
  from 3 have "keys t' \<subseteq> keys (push_back (addr a) (addr p) t) \<union> addr ` set as"
    and "vals t' \<subseteq> vals (push_back (addr a) (addr p) t) \<union> addr ` set ps"
    by simp_all
  then show ?case
    using vals_push_back [of "addr a" "addr p" t] by (auto simp: keys_push_back)
qed

lemma bind_params_distinct:
  "bind_params as ps t = Inr t' \<Longrightarrow> distinct (map fst t) \<Longrightarrow> distinct (map fst t')"
  by (induction as ps t rule: bind_params.induct) (simp_all add: distinct_push_back)

lemma inv_propose:
  assumes "collector_inv D C P st" and "propose_scope call st = Inr st'"
    and "site_ok D C P call"
  shows "collector_inv D C P st'"
proof (cases "primitive_supports_texture st")
  case False
  with assms show ?thesis by (simp add: propose_scope_def)
next
  case True
  from assms(2) True
  have b: "bind_params (args call) (params (op call)) (args_to_vars st) = Inr (args_to_vars st')"
    and c: "consumer_storage_scopes st' = consumer_storage_scopes st"
    and k: "keys (storage_scope st') \<subseteq> insert (addr call) (keys (storage_scope st))"
    and n: "nonempty_entries (storage_scope st) \<longrightarrow> nonempty_entries (storage_scope st')"
    by (auto simp: propose_scope_def keys_push_back keys_fold_push_back nonempty_push_back
        nonempty_fold_push_back split: rtype.splits sum.splits if_splits)
  from assms(1) have da: "distinct (map fst (args_to_vars st))"
    by (simp add: collector_inv_def)
  from bind_params_distinct [OF b da] have da': "distinct (map fst (args_to_vars st'))" .
  from bind_params_bounds [OF b]
  have kb: "keys (args_to_vars st') \<subseteq> keys (args_to_vars st) \<union> addr ` set (args call)"
    and vb: "vals (args_to_vars st') \<subseteq> vals (args_to_vars st) \<union> addr ` set (params (op call))"
    by simp_all
  from assms(1) have i: "keys (consumer_storage_scopes st) \<subseteq> D"
    "keys (storage_scope st) \<subseteq> C \<union> D" "keys (args_to_vars st) \<subseteq> D"
    "vals (args_to_vars st) \<subseteq> P" "distinct (map fst (consumer_storage_scopes st))"
    "nonempty_entries (storage_scope st)"
    by (simp_all add: collector_inv_def)
  from assms(3) have s: "addr call \<in> C" "addr ` set (args call) \<subseteq> D"
    "addr ` set (params (op call)) \<subseteq> P"
    by (simp_all add: site_ok_def)
  have "keys (args_to_vars st') \<subseteq> D"
    using kb i(3) s(2) by blast
  moreover have "vals (args_to_vars st') \<subseteq> P"
    using vb i(4) s(3) by blast
  moreover have "keys (storage_scope st') \<subseteq> C \<union> D"
    using k i(2) s(1) by blast
  ultimately show ?thesis
    using c n i da' by (simp add: collector_inv_def)
qed

lemma inv_add_consumer:
  assumes "collector_inv D C P st" and "add_consumer_scopes c as st = Inr st'"
    and "addr ` set as \<subseteq> D"
  shows "collector_inv D C P st'"
  using assms
proof (induction as arbitrary: st)
  case Nil
  then show ?case by simp
next
  case (Cons a as)
  let ?st1 = "\<lambda>v. st\<lparr>consumer_storage_scopes := push_back (addr a) v (consumer_storage_scopes st)\<rparr>"
  have inv1: "collector_inv D C P (?st1 v)" for v
    using Cons.prems(1,3) by (auto simp: collector_inv_def keys_push_back distinct_push_back)
  from Cons.prems(2) obtain v where "add_consumer_scopes c as (?st1 v) = Inr st'"
    by (auto split: if_splits sum.splits)
  from Cons.IH [OF inv1 this] Cons.prems(3) show ?case by simp
qed

lemma inv_retract_one: "collector_inv D C P st \<Longrightarrow> collector_inv D C P (retract_one e st)"
  by (induction e st rule: retract_one.induct)
    (auto simp: collector_inv_def keys_erase nonempty_erase)

lemma inv_retract: "collector_inv D C P st \<Longrightarrow> collector_inv D C P (retract as st)"
  by (induction as arbitrary: st) (auto simp: inv_retract_one)

lemma traversal_inv:
  fixes D C P :: "nat set"
  shows "covered D C P e \<Longrightarrow> collector_inv D C P st \<Longrightarrow> VisitExpr e st = Inr st' \<Longrightarrow>
      collector_inv D C P st'"
    and "covered D C P e \<Longrightarrow> collector_inv D C P st \<Longrightarrow> VisitNode e st = Inr st' \<Longrightarrow>
      collector_inv D C P st'"
    and "covered D C P e \<Longrightarrow> collector_inv D C P st \<Longrightarrow> Visit e st = Inr st' \<Longrightarrow>
      collector_inv D C P st'"
    and "\<forall>x\<in>set es. covered D C P x \<Longrightarrow> collector_inv D C P st \<Longrightarrow> VisitExprs es st = Inr st' \<Longrightarrow>
      collector_inv D C P st'"
    and "\<forall>x\<in>set es. covered D C P x \<Longrightarrow> collector_inv D C P st \<Longrightarrow> VisitArgs es st = Inr st' \<Longrightarrow>
      collector_inv D C P st'"
proof (induction e st and e st and e st and es st and es st arbitrary: st' and st' and st' and st' and st'
    rule: VisitExpr_VisitNode_Visit_VisitExprs_VisitArgs.induct)
  case (1 e st)
  show ?case
  proof (cases "addr e \<in> set (visit_counter st)")
    case True
    with "1.prems" show ?thesis by (simp add: VisitExpr.simps)
  next
    case False
    with "1.prems"(3) obtain st1 where v: "VisitNode e st = Inr st1"
      and st': "st' = st1\<lparr>visit_counter := addr e # visit_counter st1\<rparr>"
      by (auto simp: VisitExpr.simps split: sum.splits)
    from "1.IH" [OF False "1.prems"(1,2) v] show ?thesis
      by (simp add: st')
  qed
next
  case (2 a ty vd st)
  then show ?case by (auto intro: inv_Apply)
next
  case (3 a ty vd st)
  then show ?case by (auto intro: inv_Apply)
next
  case (4 a n st)
  then show ?case by simp
next
  case (5 a ps b prim st)
  from "5.prems"(1) have cp: "\<forall>x\<in>set ps. covered D C P x" and cb: "covered D C P b"
    by (simp_all add: covered_Function)
  from "5.prems"(3) obtain st1 where v1: "VisitExprs ps st = Inr st1" and v2: "VisitExpr b st1 = Inr st'"
    by (auto split: sum.splits)
  from "5.IH"(1) [OF cp "5.prems"(2) v1] have "collector_inv D C P st1" .
  from "5.IH"(2) [OF v1 cb this v2] show ?case .
next
  case (6 a f as at ty vd st)
  let ?call = "Call a f as at ty vd"
  let ?pre = "case f of
      Function fa ps b prim \<Rightarrow>
        if prim then
          (case Visit f (st\<lparr>primitive_supports_texture := False\<rparr>) of
             Inl err \<Rightarrow> Inl err
           | Inr st1 \<Rightarrow>
               (case propose_scope ?call st1 of
                  Inl err \<Rightarrow> Inl err
                | Inr st2 \<Rightarrow> add_consumer_scopes a as st2))
        else Inr st
    | _ \<Rightarrow> Inr st"
  from "6.prems"(1) have cf: "covered D C P f" and ca: "\<forall>x\<in>set as. covered D C P x"
    and site: "is_primitive_call ?call \<longrightarrow> site_ok D C P ?call"
    by (simp_all add: covered_Call)
  from "6.prems"(3) obtain st3 st4 where pre: "?pre = Inr st3"
    and va: "VisitArgs as (st3\<lparr>primitive_supports_texture := SupportsTextureStorage at\<rparr>) = Inr st4"
    and st': "st' = retract as st4"
    by (auto split: sum.splits)
  have inv3: "collector_inv D C P st3"
  proof (cases "is_primitive_call ?call")
    case False
    with pre have "st3 = st"
      by (cases f) (auto split: if_splits)
    with "6.prems"(2) show ?thesis by simp
  next
    case True
    then obtain fa ps b where f: "f = Function fa ps b True"
      by (cases f) auto
    from pre f obtain st1 st2 where
      v: "Visit f (st\<lparr>primitive_supports_texture := False\<rparr>) = Inr st1"
      and p: "propose_scope ?call st1 = Inr st2"
      and d: "add_consumer_scopes a as st2 = Inr st3"
      by (auto split: sum.splits)
    have "collector_inv D C P (st\<lparr>primitive_supports_texture := False\<rparr>)"
      using "6.prems"(2) by simp
    from "6.IH"(1) [OF f _ cf this v] have "collector_inv D C P st1" by simp
    from inv_propose [OF this p] site True have "collector_inv D C P st2" by simp
    from inv_add_consumer [OF this d] site True show ?thesis
      by (simp add: site_ok_def)
  qed
  then have "collector_inv D C P (st3\<lparr>primitive_supports_texture := SupportsTextureStorage at\<rparr>)"
    by simp
  from "6.IH"(2) [OF pre ca this va] show ?case
    by (simp add: st' inv_retract)
next
  case (7 e st)
  show ?case
  proof (cases e)
    case (Function a ps b prim)
    from "7.prems"(1) Function have cp: "\<forall>x\<in>set ps. covered D C P x" and cb: "covered D C P b"
      by (simp_all add: covered_Function)
    from "7.prems"(3) Function obtain st1 where v1: "VisitExpr b st = Inr st1"
      and v2: "VisitExprs ps st1 = Inr st'"
      by (auto simp: Visit.simps split: sum.splits)
    from "7.IH"(5) [OF Function cb "7.prems"(2) v1] have "collector_inv D C P st1" .
    from "7.IH"(6) [OF Function v1 cp this v2] show ?thesis .
  next
    case (Var a ty vd)
    with "7.prems" "7.IH"(1) [OF Var] show ?thesis by (simp add: Visit.simps)
  next
    case (Constant a ty vd)
    with "7.prems" "7.IH"(2) [OF Constant] show ?thesis by (simp add: Visit.simps)
  next
    case (Op a n)
    with "7.prems" "7.IH"(3) [OF Op] show ?thesis by (simp add: Visit.simps)
  next
    case (Call a f as at ty vd)
    with "7.prems" "7.IH"(4) [OF Call] show ?thesis by (simp add: Visit.simps)
  qed
next
  case (8 st)
  then show ?case by simp
next
  case (9 e es st)
  from "9.prems"(3) obtain st1 where v1: "VisitExpr e st = Inr st1" and v2: "VisitExprs es st1 = Inr st'"
    by (auto split: sum.splits)
  from "9.IH"(1) [OF _ "9.prems"(2) v1] "9.prems"(1) have "collector_inv D C P st1" by simp
  from "9.IH"(2) [OF v1 _ this v2] "9.prems"(1) show ?case by simp
next
  case (10 st)
  then show ?case by simp
next
  case (11 e es st)
  from "11.prems"(3) obtain st1 where v1: "Visit e st = Inr st1" and v2: "VisitArgs es st1 = Inr st'"
    by (auto split: sum.splits)
  from "11.IH"(1) [OF _ "11.prems"(2) v1] "11.prems"(1) have "collector_inv D C P st1" by simp
  from "11.IH"(2) [OF v1 _ this v2] "11.prems"(1) show ?case by simp
qed

lemma collector_state:
  assumes "VisitExpr e init_info = Inr st"
  shows "collector_inv (demand_sites e) (primitive_calls e) (bound_params e) st"
  by (rule traversal_inv(1) [OF covered_self inv_init assms])

lemma collector_wellformed:
  assumes "VisitExpr e init_info = Inr st"
  shows "distinct (map fst (consumer_storage_scopes st))" and "nonempty_entries (storage_scope st)"
    and "distinct (map fst (args_to_vars st))"
  using collector_state [OF assms] by (simp_all add: collector_inv_def)

text \<open>
  The scope of a bound parameter in the map returned, in every order of the last loop:
  a parameter bound to one argument only, which is not itself bound to an argument, has
  the scope that the argument has after lines 72 to 80.
\<close>

lemma bound_parameter_scope:
  assumes "legalized_state e = Inr st" and "(a, vs) \<in> set (args_to_vars st)" and "v \<in> set vs"
    and "a \<notin> vals (args_to_vars st)"
    and "\<forall>(a', vs')\<in>set (args_to_vars st). v \<in> set vs' \<longrightarrow> a' = a"
    and "map_of (filled_map st) a = Some s"
  shows "scope_of (GetStorageMap rank e) v = Some s"
proof -
  from assms(1) obtain st1 where v: "VisitExpr e init_info = Inr st1"
    and l: "LegalizeProducerStorage st1 = Inr st"
    by (auto simp: legalized_state_def split: sum.splits)
  from l have "args_to_vars st = args_to_vars st1"
    unfolding LegalizeProducerStorage_def by (auto dest: legalize_loop_frame)
  with collector_wellformed(3) [OF v] have d: "distinct (map fst (args_to_vars st))"
    by simp
  have "map_of (add_vars (iteration rank (args_to_vars st)) (filled_map st)) v = Some s"
    by (rule add_vars_bound) (use d assms in simp_all)
  then show ?thesis
    by (simp add: GetStorageMap_legalized assms(1) scope_of_def final_map_def)
qed




end
